theory Spec2Isabelle
  imports Main "HOL-Library.Sublist"
begin

section \<open>Markdown serialization of a document tree (src/markdown/to\_markdown.js)\<close>

subsection \<open>Marks and nodes\<close>

text \<open>
  Modelled from the spec: the mark types are declared in the model package, which is not
  among the sources; a mark is a kind with its attributes. These are the four mark types
  for which the file defines markdown strings. A link carries its \<open>href\<close> and an
  optional \<open>title\<close> attribute. \<open>mark.eq(other)\<close> is equality of kind and
  attributes, which is HOL equality on this datatype.
\<close>

datatype mark =
    EmMark
  | StrongMark
  | LinkMark string "string option"
  | CodeMark

text \<open>
  Modelled from the spec: the node types are declared in the model package as well; a
  node has a kind, attributes and an ordered sequence of children, a text node has its
  text and its marks. These are the node types that the file gives a
  \<open>serializeMarkdown\<close> method, each with the attributes that its method reads.
  Attributes that may be absent are options. A code block carries its \<open>textContent\<close>.
  Inline nodes carry their marks. The \<open>order\<close> attribute of an ordered list is a
  number; the model has the integers, negative ones included.
\<close>

datatype node =
    Text string "mark list"
  | Image "string option" string "string option" "mark list"
  | HardBreak "mark list"
  | Paragraph "node list"
  | Heading nat "node list"
  | BlockQuote "node list"
  | CodeBlock "string option" string
  | HorizontalRule "string option"
  | BulletList "string option" bool "node list"
  | OrderedList "int option" bool "node list"
  | ListItem "node list"

datatype node_type =
    TText | TImage | THardBreak | TParagraph | THeading | TBlockQuote | TCodeBlock
  | THorizontalRule | TBulletList | TOrderedList | TListItem

fun type_of :: "node \<Rightarrow> node_type" where
  "type_of (Text _ _) = TText"
| "type_of (Image _ _ _ _) = TImage"
| "type_of (HardBreak _) = THardBreak"
| "type_of (Paragraph _) = TParagraph"
| "type_of (Heading _ _) = THeading"
| "type_of (BlockQuote _) = TBlockQuote"
| "type_of (CodeBlock _ _) = TCodeBlock"
| "type_of (HorizontalRule _) = THorizontalRule"
| "type_of (BulletList _ _ _) = TBulletList"
| "type_of (OrderedList _ _ _) = TOrderedList"
| "type_of (ListItem _) = TListItem"

text \<open>\<open>node.marks\<close>: the marks of an inline node, empty for a block node.\<close>

fun marks_of :: "node \<Rightarrow> mark list" where
  "marks_of (Text _ ms) = ms"
| "marks_of (Image _ _ _ ms) = ms"
| "marks_of (HardBreak ms) = ms"
| "marks_of _ = []"

fun isText :: "node \<Rightarrow> bool" where
  "isText (Text _ _) = True"
| "isText _ = False"

fun node_text :: "node \<Rightarrow> string" where
  "node_text (Text t _) = t"
| "node_text _ = []"

text \<open>
  Modelled from the spec: \<open>isCode\<close> is a property of the mark types of the model
  package; the literal mark, whose content is written unescaped, is the code span.
\<close>

fun isCode :: "mark \<Rightarrow> bool" where
  "isCode CodeMark = True"
| "isCode _ = False"

text \<open>\<open>markdownMixable\<close> is set for emphasis and strong at the end of the file.\<close>

fun markdownMixable :: "mark \<Rightarrow> bool" where
  "markdownMixable EmMark = True"
| "markdownMixable StrongMark = True"
| "markdownMixable _ = False"

subsection \<open>Serializer state\<close>

record options =
  hardBreak :: "string option"

text \<open>
  \<open>closed\<close> is \<open>false\<close> (here \<open>None\<close>) or the node whose block was closed last.
\<close>

record state =
  out :: string
  delim :: string
  closed :: "node option"
  inTightList :: bool
  opts :: options

definition MarkdownSerializer :: "options \<Rightarrow> state" where
  "MarkdownSerializer options =
     \<lparr>out = [], delim = [], closed = None, inTightList = False, opts = options\<rparr>"

abbreviation nl :: char where
  "nl \<equiv> CHR 0x0A"

abbreviation bslash :: char where
  "bslash \<equiv> CHR 0x5C"

text \<open>\<open>/(^|\n)$/.test(this.out)\<close>: the buffer is empty or ends with a line break.\<close>

definition atBlank :: "state \<Rightarrow> bool" where
  "atBlank s = (out s = [] \<or> last (out s) = nl)"

text \<open>
  The characters matched by \<open>\s\<close>, among the code units below 256: tab, line feed,
  vertical tab, form feed, carriage return, space and the no-break space.
\<close>

definition isSpace :: "char \<Rightarrow> bool" where
  "isSpace c = (c \<in> {CHR 0x09, CHR 0x0A, CHR 0x0B, CHR 0x0C, CHR 0x0D, CHR 0x20, CHR 0xA0})"

text \<open>\<open>/\s+$/\<close> removed from the end of the prefix: the longest run of trailing whitespace.\<close>

definition trimEnd :: "string \<Rightarrow> string" where
  "trimEnd d = rev (dropWhile isSpace (rev d))"

definition ensureNewLine :: "state \<Rightarrow> state" where
  "ensureNewLine s = (if \<not> atBlank s then s\<lparr>out := out s @ [nl]\<rparr> else s)"

text \<open>
  \<open>flushClose(size)\<close>; an omitted \<open>size\<close> is \<open>None\<close>. The loop
  \<open>for (let i = 1; i < size; i++)\<close> runs \<open>size - 1\<close> times.
\<close>

definition flushClose :: "int option \<Rightarrow> state \<Rightarrow> state" where
  "flushClose sz s =
     (if closed s \<noteq> None then
        (let s1 = (if \<not> atBlank s then s\<lparr>out := out s @ [nl]\<rparr> else s);
             size1 = (case sz of None \<Rightarrow> 2 | Some n \<Rightarrow> n);
             s2 = (if size1 > 1 then
                     (let delimMin = trimEnd (delim s1)
                      in s1\<lparr>out := out s1 @ concat (replicate (nat (size1 - 1)) (delimMin @ [nl]))\<rparr>)
                   else s1)
         in s2\<lparr>closed := None\<rparr>)
      else s)"

text \<open>\<open>write(content)\<close>; an omitted \<open>content\<close> is \<open>None\<close>.\<close>

definition write_st :: "string option \<Rightarrow> state \<Rightarrow> state" where
  "write_st content s =
     (let s1 = flushClose None s;
          s2 = (if delim s1 \<noteq> [] \<and> atBlank s1 then s1\<lparr>out := out s1 @ delim s1\<rparr> else s1)
      in (case content of
            None \<Rightarrow> s2
          | Some c \<Rightarrow> (if c \<noteq> [] then s2\<lparr>out := out s2 @ c\<rparr> else s2)))"

definition closeBlock :: "node \<Rightarrow> state \<Rightarrow> state" where
  "closeBlock n s = s\<lparr>closed := Some n\<rparr>"

text \<open>
  \<open>wrapBlock(delim, firstDelim, node, f)\<close>; \<open>firstDelim || delim\<close> takes the prefix
  when the first-line prefix is null or empty.
\<close>

definition wrapBlock :: "string \<Rightarrow> string option \<Rightarrow> node \<Rightarrow> (state \<Rightarrow> state) \<Rightarrow> state \<Rightarrow> state" where
  "wrapBlock d firstDelim n f s =
     (let old = delim s;
          s1 = write_st (Some (case firstDelim of None \<Rightarrow> d | Some fd \<Rightarrow> if fd = [] then d else fd)) s;
          s2 = s1\<lparr>delim := delim s1 @ d\<rparr>;
          s3 = f s2;
          s4 = s3\<lparr>delim := old\<rparr>
      in closeBlock n s4)"

lemma wrapBlock_cong [fundef_cong]:
  "d = d' \<Longrightarrow> fd = fd' \<Longrightarrow> n = n' \<Longrightarrow> s = s' \<Longrightarrow> (\<And>t. f t = f' t)
   \<Longrightarrow> wrapBlock d fd n f s = wrapBlock d' fd' n' f' s'"
  by (simp add: wrapBlock_def)

subsection \<open>Escaping and quoting\<close>

text \<open>The character class \<open>[`*\\~+\[\]]\<close>.\<close>

definition isSpecial :: "char \<Rightarrow> bool" where
  "isSpecial c = (c \<in> {CHR ''`'', CHR ''*'', bslash, CHR ''~'', CHR ''+'', CHR ''['', CHR '']''})"

text \<open>The character class \<open>[:#-]\<close>.\<close>

definition isLineStartSpecial :: "char \<Rightarrow> bool" where
  "isLineStartSpecial c = (c \<in> {CHR '':'', CHR ''#'', CHR ''-''})"

text \<open>\<open>str.replace(/[`*\\~+\[\]]/g, "\\$&")\<close>\<close>

fun replaceSpecial :: "string \<Rightarrow> string" where
  "replaceSpecial [] = []"
| "replaceSpecial (c # cs) = (if isSpecial c then bslash # c # replaceSpecial cs else c # replaceSpecial cs)"

text \<open>\<open>str.replace(/^[:#-]/, "\\$&")\<close>\<close>

fun replaceLineStart :: "string \<Rightarrow> string" where
  "replaceLineStart [] = []"
| "replaceLineStart (c # cs) = (if isLineStartSpecial c then bslash # c # cs else c # cs)"

definition esc :: "string \<Rightarrow> bool \<Rightarrow> string" where
  "esc str startOfLine =
     (let str1 = replaceSpecial str
      in if startOfLine then replaceLineStart str1 else str1)"

definition quote :: "string \<Rightarrow> string" where
  "quote str =
     (if CHR 0x22 \<notin> set str then CHR 0x22 # str @ [CHR 0x22]
      else if CHR 0x27 \<notin> set str then CHR 0x27 # str @ [CHR 0x27]
      else CHR ''('' # str @ [CHR '')''])"

fun repeat :: "string \<Rightarrow> nat \<Rightarrow> string" where
  "repeat str 0 = []"
| "repeat str (Suc n) = repeat str n @ str"

text \<open>\<open>text.split("\n")\<close>: always at least one line.\<close>

fun split_lines :: "string \<Rightarrow> string list" where
  "split_lines [] = [[]]"
| "split_lines (c # cs) =
     (if c = nl then [] # split_lines cs
      else (case split_lines cs of
              [] \<Rightarrow> [[c]]
            | l # ls \<Rightarrow> (c # l) # ls))"

text \<open>
  The loop of \<open>text(text, escape)\<close> over the lines; \<open>escape\<close> is \<open>False\<close> only when
  the caller passes \<open>false\<close>.
\<close>

fun text_lines :: "bool \<Rightarrow> string list \<Rightarrow> state \<Rightarrow> state" where
  "text_lines escape [] s = s"
| "text_lines escape (l # ls) s =
     (let startOfLine = (atBlank s \<or> closed s \<noteq> None);
          s1 = write_st None s;
          s2 = s1\<lparr>out := out s1 @ (if escape then esc l startOfLine else l)\<rparr>;
          s3 = (if ls \<noteq> [] then s2\<lparr>out := out s2 @ [nl]\<rparr> else s2)
      in text_lines escape ls s3)"

definition text_st :: "string \<Rightarrow> bool \<Rightarrow> state \<Rightarrow> state" where
  "text_st t escape s = text_lines escape (split_lines t) s"

subsection \<open>Mark strings\<close>

text \<open>
  \<open>markString(mark, open)\<close> with the \<open>openMarkdown\<close> and \<open>closeMarkdown\<close> of the
  four mark types.
\<close>

fun openMarkdown :: "mark \<Rightarrow> string" where
  "openMarkdown EmMark = ''*''"
| "openMarkdown StrongMark = ''**''"
| "openMarkdown (LinkMark href title) = ''[''"
| "openMarkdown CodeMark = ''`''"

fun closeMarkdown :: "mark \<Rightarrow> string" where
  "closeMarkdown EmMark = ''*''"
| "closeMarkdown StrongMark = ''**''"
| "closeMarkdown (LinkMark href title) =
     '']('' @ esc href False @
     (case title of None \<Rightarrow> [] | Some t \<Rightarrow> if t = [] then [] else '' '' @ quote t) @ '')''"
| "closeMarkdown CodeMark = ''`''"

definition markString :: "mark \<Rightarrow> bool \<Rightarrow> string" where
  "markString m opn = (if opn then openMarkdown m else closeMarkdown m)"

subsection \<open>The inline renderer\<close>

text \<open>\<open>marks.slice(a, b)\<close> for \<open>0 \<le> a\<close>: clamped at the end, empty when \<open>b \<le> a\<close>.\<close>

definition slice :: "nat \<Rightarrow> nat \<Rightarrow> 'a list \<Rightarrow> 'a list" where
  "slice a b xs = take (b - a) (drop a xs)"

text \<open>
  The inner loop of the reordering pass, over \<open>active\<close> from index \<open>j\<close>: it stops at a
  mark that is not mixable, and gives the index of the first mark equal to \<open>mark\<close>.
\<close>

fun scanActive :: "mark \<Rightarrow> mark list \<Rightarrow> nat \<Rightarrow> nat option" where
  "scanActive mark [] j = None"
| "scanActive mark (other # rest) j =
     (if \<not> markdownMixable other then None
      else if mark = other then Some j
      else scanActive mark rest (Suc j))"

text \<open>
  The outer loop of the reordering pass from index \<open>i\<close>. It reads \<open>marks[i]\<close> for
  \<open>i < len\<close> only, and every list it builds has at least \<open>len\<close> elements
  (lemma \<open>reorderFrom_length\<close> below), so the read is in range.
\<close>

function reorderFrom :: "nat \<Rightarrow> nat \<Rightarrow> mark list \<Rightarrow> mark list \<Rightarrow> mark list" where
  "reorderFrom i len active marks =
     (if i < len then
        (let mark = marks ! i in
         if \<not> markdownMixable mark then marks
         else (case scanActive mark active 0 of
                 None \<Rightarrow> reorderFrom (Suc i) len active marks
               | Some j \<Rightarrow>
                   reorderFrom (Suc i) len active
                     (if i > j then
                        slice 0 j marks @ [mark] @ slice j i marks @ slice (i + 1) len marks
                      else if j > i then
                        slice 0 i marks @ slice (i + 1) j marks @ [mark] @ slice j len marks
                      else marks)))
      else marks)"
  by pat_completeness auto
termination
  by (relation "measure (\<lambda>(i, len, active, marks). len - i)") auto

declare reorderFrom.simps [simp del]

text \<open>\<open>while (keep < Math.min(active.length, len) && marks[keep].eq(active[keep])) ++keep\<close>\<close>

function keepFrom :: "nat \<Rightarrow> nat \<Rightarrow> mark list \<Rightarrow> mark list \<Rightarrow> nat" where
  "keepFrom keep len active marks =
     (if keep < min (length active) len \<and> marks ! keep = active ! keep
      then keepFrom (Suc keep) len active marks
      else keep)"
  by pat_completeness auto
termination
  by (relation "measure (\<lambda>(keep, len, active, marks). len - keep)") auto

declare keepFrom.simps [simp del]

text \<open>
  \<open>while (keep < active.length) this.text(this.markString(active.pop(), false), false)\<close>
\<close>

function closeMarks :: "nat \<Rightarrow> mark list \<Rightarrow> state \<Rightarrow> mark list \<times> state" where
  "closeMarks keep active s =
     (if keep < length active
      then closeMarks keep (butlast active) (text_st (markString (last active) False) False s)
      else (active, s))"
  by pat_completeness auto
termination
  by (relation "measure (\<lambda>(keep, active, s). length active)") auto

declare closeMarks.simps [simp del]

text \<open>
  \<open>while (active.length < len) { let add = marks[active.length]; active.push(add);
  this.text(this.markString(add, true), false) }\<close>
\<close>

function openMarks :: "nat \<Rightarrow> mark list \<Rightarrow> mark list \<Rightarrow> state \<Rightarrow> mark list \<times> state" where
  "openMarks len marks active s =
     (if length active < len
      then (let add = marks ! length active
            in openMarks len marks (active @ [add]) (text_st (markString add True) False s))
      else (active, s))"
  by pat_completeness auto
termination
  by (relation "measure (\<lambda>(len, marks, active, s). len - length active)") auto

declare openMarks.simps [simp del]

text \<open>
  \<open>code\<close>: the last mark of the node when it is a code mark.
\<close>

definition codeOf :: "mark list \<Rightarrow> mark option" where
  "codeOf marks = (if marks \<noteq> [] \<and> isCode (last marks) then Some (last marks) else None)"

definition lenOf :: "mark list \<Rightarrow> nat" where
  "lenOf marks = length marks - (if codeOf marks \<noteq> None then 1 else 0)"

text \<open>
  The part of \<open>progress\<close> before the node is rendered: reorder, find the common
  prefix, close, open. \<open>marks\<close> is \<open>node.marks\<close>, or empty when there is no node.
\<close>

definition progressMarks :: "mark list \<Rightarrow> mark list \<Rightarrow> state \<Rightarrow> mark list \<times> state" where
  "progressMarks marks active s =
     (let len = lenOf marks;
          marks1 = reorderFrom 0 len active marks;
          keep = keepFrom 0 len active marks1;
          (active1, s1) = closeMarks keep active s
      in openMarks len marks1 active1 s1)"

subsection \<open>Rendering nodes\<close>

text \<open>The decimal digits of a natural number.\<close>

definition digit :: "nat \<Rightarrow> char" where
  "digit d = char_of (48 + d)"

fun String_nat :: "nat \<Rightarrow> string" where
  "String_nat n = (if n < 10 then [digit n] else String_nat (n div 10) @ [digit (n mod 10)])"

declare String_nat.simps [simp del]

text \<open>
  \<open>String(n)\<close> for an integer \<open>n\<close>: the decimal digits, after a minus sign when \<open>n\<close> is
  negative. This is what \<open>String\<close> gives for the integers of magnitude below \<open>10^21\<close>
  (from there on it gives an exponent), and the sums \<open>start + i\<close> are exact for the
  integers of magnitude up to \<open>2^53 - 1\<close>; the properties of ordered lists below are
  stated within that range.
\<close>

definition String_int :: "int \<Rightarrow> string" where
  "String_int n = (if n < 0 then CHR ''-'' # String_nat (nat (- n)) else String_nat (nat n))"

text \<open>\<open>node.attrs.tight\<close> and the children of a node.\<close>

fun tight_of :: "node \<Rightarrow> bool" where
  "tight_of (BulletList _ tight _) = tight"
| "tight_of (OrderedList _ tight _) = tight"
| "tight_of _ = False"

fun children_of :: "node \<Rightarrow> node list" where
  "children_of (Paragraph cs) = cs"
| "children_of (Heading _ cs) = cs"
| "children_of (BlockQuote cs) = cs"
| "children_of (BulletList _ _ cs) = cs"
| "children_of (OrderedList _ _ cs) = cs"
| "children_of (ListItem cs) = cs"
| "children_of _ = []"

text \<open>
  The function that an ordered list passes to \<open>renderList\<close> for the first-line prefix
  of item \<open>i\<close>. \<open>repeat(" ", maxW - nStr.length)\<close> is empty when the number string is
  longer than \<open>maxW\<close>, as the subtraction of natural numbers has it.
\<close>

definition orderedFirstDelim :: "int \<Rightarrow> nat \<Rightarrow> nat \<Rightarrow> string" where
  "orderedFirstDelim start maxW i =
     (let nStr = String_int (start + int i)
      in repeat '' '' (maxW - length nStr) @ nStr @ ''. '')"

text \<open>
  The \<open>serializeMarkdown\<close> methods with \<open>render\<close>, \<open>renderContent\<close>,
  \<open>renderInline\<close> (its \<open>progress\<close>, and the loop over the children with the stack
  \<open>active\<close>) and \<open>renderList\<close> (with its loop over the items, \<open>cs\<close> being the
  children from index \<open>i\<close> on).
\<close>

function (sequential) render :: "node \<Rightarrow> state \<Rightarrow> state"
  and renderContent :: "node list \<Rightarrow> state \<Rightarrow> state"
  and progress :: "node option \<Rightarrow> mark list \<Rightarrow> state \<Rightarrow> mark list \<times> state"
  and renderInlineFrom :: "node list \<Rightarrow> mark list \<Rightarrow> state \<Rightarrow> state"
  and renderList :: "node \<Rightarrow> string \<Rightarrow> (nat \<Rightarrow> string) \<Rightarrow> state \<Rightarrow> state"
  and renderItems :: "node \<Rightarrow> string \<Rightarrow> (nat \<Rightarrow> string) \<Rightarrow> nat \<Rightarrow> node list \<Rightarrow> state \<Rightarrow> state"
where
  "render (BlockQuote cs) s = wrapBlock ''> '' None (BlockQuote cs) (\<lambda>t. renderContent cs t) s"
| "render (CodeBlock params textContent) s =
     (case params of
        None \<Rightarrow> wrapBlock ''    '' None (CodeBlock params textContent) (\<lambda>t. text_st textContent False t) s
      | Some p \<Rightarrow>
          (let s1 = write_st (Some (''```'' @ p @ [nl])) s;
               s2 = text_st textContent False s1;
               s3 = ensureNewLine s2;
               s4 = write_st (Some ''```'') s3
           in closeBlock (CodeBlock params textContent) s4))"
| "render (Heading level cs) s =
     (let s1 = write_st (Some (repeat ''#'' level @ '' '')) s;
          s2 = renderInlineFrom cs [] s1
      in closeBlock (Heading level cs) s2)"
| "render (HorizontalRule markup) s =
     (let s1 = write_st (Some (case markup of None \<Rightarrow> ''---'' | Some m \<Rightarrow> if m = [] then ''---'' else m)) s
      in closeBlock (HorizontalRule markup) s1)"
| "render (BulletList bullet tight cs) s =
     renderList (BulletList bullet tight cs) ''  ''
       (\<lambda>i. (case bullet of None \<Rightarrow> ''*'' | Some b \<Rightarrow> if b = [] then ''*'' else b) @ '' '') s"
| "render (OrderedList order tight cs) s =
     (let start = (case order of None \<Rightarrow> 1 | Some n \<Rightarrow> if n = 0 then 1 else n);
          maxW = length (String_int (start + int (length cs) - 1));
          space = repeat '' '' (maxW + 2)
      in renderList (OrderedList order tight cs) space (orderedFirstDelim start maxW) s)"
| "render (ListItem cs) s = renderContent cs s"
| "render (Paragraph cs) s =
     (let s1 = renderInlineFrom cs [] s
      in closeBlock (Paragraph cs) s1)"
| "render (Image alt src title ms) s =
     write_st (Some (''!['' @ esc (case alt of None \<Rightarrow> [] | Some a \<Rightarrow> a) False @ '']('' @ esc src False @
                  (case title of None \<Rightarrow> [] | Some t \<Rightarrow> if t = [] then [] else '' '' @ quote t) @ '')'')) s"
| "render (HardBreak ms) s =
     write_st (Some (case hardBreak (opts s) of
                    None \<Rightarrow> [bslash, nl]
                  | Some h \<Rightarrow> if h = [] then [bslash, nl] else h)) s"
| "render (Text t ms) s = text_st t True s"
| "renderContent [] s = s"
| "renderContent (c # cs) s = renderContent cs (render c s)"
| "progress None active s = progressMarks [] active s"
| "progress (Some n) active s =
     (let (active1, s1) = progressMarks (marks_of n) active s
      in (case codeOf (marks_of n) of
            Some code \<Rightarrow>
              if isText n
              then (active1, text_st (markString code False @ node_text n @ markString code True) False s1)
              else (active1, render n s1)
          | None \<Rightarrow> (active1, render n s1)))"
| "renderInlineFrom [] active s = snd (progress None active s)"
| "renderInlineFrom (c # cs) active s =
     (let (active1, s1) = progress (Some c) active s
      in renderInlineFrom cs active1 s1)"
| "renderList n d firstDelim s =
     (let s0 = (if closed s \<noteq> None \<and> type_of (the (closed s)) = type_of n then flushClose (Some 3) s
                else if inTightList s then flushClose (Some 1) s
                else s);
          prevTight = inTightList s0;
          s1 = s0\<lparr>inTightList := tight_of n\<rparr>;
          s2 = renderItems n d firstDelim 0 (children_of n) s1
      in s2\<lparr>inTightList := prevTight\<rparr>)"
| "renderItems n d firstDelim i [] s = s"
| "renderItems n d firstDelim i (c # cs) s =
     (let s1 = (if i \<noteq> 0 \<and> tight_of n then flushClose (Some 1) s else s);
          s2 = wrapBlock d (Some (firstDelim i)) n (\<lambda>t. render c t) s1
      in renderItems n d firstDelim (Suc i) cs s2)"
  by pat_completeness auto
termination
  by (relation "measure (\<lambda>x. case x of
          Inl (Inl (n, s)) \<Rightarrow> 4 * size n + 2
        | Inl (Inr (Inl (cs, s))) \<Rightarrow> 4 * size_list size cs + 1
        | Inl (Inr (Inr (no, active, s))) \<Rightarrow> (case no of None \<Rightarrow> 0 | Some n \<Rightarrow> 4 * size n + 3)
        | Inr (Inl (cs, active, s)) \<Rightarrow> 4 * size_list size cs + 1
        | Inr (Inr (Inl (n, d, firstDelim, s))) \<Rightarrow> 4 * size_list size (children_of n) + 2
        | Inr (Inr (Inr (n, d, firstDelim, i, cs, s))) \<Rightarrow> 4 * size_list size cs + 1)")
     simp_all

lemmas render_defs =
  render.simps renderContent.simps progress.simps renderInlineFrom.simps
  renderList.simps renderItems.simps

declare render_defs [simp del]

definition renderInline :: "node list \<Rightarrow> state \<Rightarrow> state" where
  "renderInline cs s = renderInlineFrom cs [] s"

text \<open>
  \<open>toMarkdown(doc, options)\<close>; the document is given by its children, the blocks that
  \<open>renderContent(doc)\<close> renders.
\<close>

definition toMarkdown :: "node list \<Rightarrow> options \<Rightarrow> string" where
  "toMarkdown doc options = out (renderContent doc (MarkdownSerializer options))"




subsection \<open>The inline renderer as a sequence of operations\<close>

text \<open>
  What \<open>renderInline\<close> does to the output is a sequence of three kinds of steps: writing
  the opening string of a mark, writing the closing string of a mark, and rendering a
  child. The functions below follow \<open>closeMarks\<close>, \<open>openMarks\<close>, \<open>progressMarks\<close> and
  the loop of \<open>renderInline\<close> step by step and record the operations in place of
  performing them; \<open>runOps\<close> performs a recorded sequence. Lemma
  \<open>renderInlineFrom_ops\<close> below shows that running the recorded sequence is the same
  as rendering.
\<close>

datatype inline_op = OpenMark mark | CloseMark mark | Content node

function closeOps :: "nat \<Rightarrow> mark list \<Rightarrow> mark list \<times> inline_op list" where
  "closeOps keep active =
     (if keep < length active
      then (let (active1, ops) = closeOps keep (butlast active)
            in (active1, CloseMark (last active) # ops))
      else (active, []))"
  by pat_completeness auto
termination
  by (relation "measure (\<lambda>(keep, active). length active)") auto

declare closeOps.simps [simp del]

function openOps :: "nat \<Rightarrow> mark list \<Rightarrow> mark list \<Rightarrow> mark list \<times> inline_op list" where
  "openOps len marks active =
     (if length active < len
      then (let add = marks ! length active;
                (active1, ops) = openOps len marks (active @ [add])
            in (active1, OpenMark add # ops))
      else (active, []))"
  by pat_completeness auto
termination
  by (relation "measure (\<lambda>(len, marks, active). len - length active)") auto

declare openOps.simps [simp del]

definition progressOps :: "mark list \<Rightarrow> mark list \<Rightarrow> mark list \<times> inline_op list" where
  "progressOps marks active =
     (let len = lenOf marks;
          marks1 = reorderFrom 0 len active marks;
          keep = keepFrom 0 len active marks1;
          (active1, ops1) = closeOps keep active;
          (active2, ops2) = openOps len marks1 active1
      in (active2, ops1 @ ops2))"

fun inlineOps :: "node list \<Rightarrow> mark list \<Rightarrow> inline_op list" where
  "inlineOps [] active = snd (progressOps [] active)"
| "inlineOps (c # cs) active =
     (let (active1, ops) = progressOps (marks_of c) active
      in ops @ Content c # inlineOps cs active1)"

fun runOp :: "inline_op \<Rightarrow> state \<Rightarrow> state" where
  "runOp (OpenMark m) s = text_st (markString m True) False s"
| "runOp (CloseMark m) s = text_st (markString m False) False s"
| "runOp (Content n) s =
     (case codeOf (marks_of n) of
        Some code \<Rightarrow>
          if isText n
          then text_st (markString code False @ node_text n @ markString code True) False s
          else render n s
      | None \<Rightarrow> render n s)"

fun runOps :: "inline_op list \<Rightarrow> state \<Rightarrow> state" where
  "runOps [] s = s"
| "runOps (x # xs) s = runOps xs (runOp x s)"

subsection \<open>Specification-level notions\<close>

text \<open>
  The escaping rule in the words of the specification: each occurrence of one of the
  characters \<open>` * \ ~ + [ ]\<close> gets a backslash in front, wherever it stands.
\<close>

definition escapeAnywhere :: "string \<Rightarrow> string" where
  "escapeAnywhere str = concat (map (\<lambda>c. if isSpecial c then [bslash, c] else [c]) str)"

text \<open>A text with the line prefix \<open>d\<close> written after each of its line breaks.\<close>

definition prefixLines :: "string \<Rightarrow> string \<Rightarrow> string" where
  "prefixLines d x = concat (map (\<lambda>c. if c = nl then nl # d else [c]) x)"

text \<open>What \<open>text\<close> appends for one line: the line, escaped or as it is.\<close>

definition lineText :: "bool \<Rightarrow> bool \<Rightarrow> string \<Rightarrow> string" where
  "lineText escape startOfLine l = (if escape then esc l startOfLine else l)"


text \<open>
  Balanced marks: running through a sequence of operations with a stack of open marks
  (the top at the end), an opening pushes its mark, and a closing must close the mark
  on top of the stack, which it pops. The result is the stack left at the end, or
  \<open>None\<close> when some closing does not match the mark opened last.
\<close>

fun nested :: "mark list \<Rightarrow> inline_op list \<Rightarrow> mark list option" where
  "nested st [] = Some st"
| "nested st (OpenMark m # ops) = nested (st @ [m]) ops"
| "nested st (CloseMark m # ops) =
     (if st \<noteq> [] \<and> last st = m then nested (butlast st) ops else None)"
| "nested st (Content n # ops) = nested st ops"

text \<open>
  The marks of a node as a sorted mark set has them: the mixable marks come before all
  others.
\<close>

definition mixableFirst :: "mark list \<Rightarrow> bool" where
  "mixableFirst marks = (filter markdownMixable marks = takeWhile markdownMixable marks)"

section \<open>Properties\<close>

subsection \<open>Basic facts about the serializer state\<close>

lemma flushClose_fields [simp]:
  "delim (flushClose sz s) = delim s"
  "inTightList (flushClose sz s) = inTightList s"
  "opts (flushClose sz s) = opts s"
  "closed (flushClose sz s) = None"
  by (simp_all add: flushClose_def Let_def)

lemma ensureNewLine_fields [simp]:
  "delim (ensureNewLine s) = delim s"
  "closed (ensureNewLine s) = closed s"
  "inTightList (ensureNewLine s) = inTightList s"
  "opts (ensureNewLine s) = opts s"
  by (simp_all add: ensureNewLine_def)

lemma atBlank_ensureNewLine: "atBlank (ensureNewLine s)"
  by (simp add: ensureNewLine_def atBlank_def)

lemma flushClose_pending:
  "closed s \<noteq> None \<Longrightarrow>
   flushClose (Some sz) s =
     (ensureNewLine s)\<lparr>out := out (ensureNewLine s)
               @ concat (replicate (nat (sz - 1)) (trimEnd (delim s) @ [nl])),
       closed := None\<rparr>"
  by (simp add: flushClose_def Let_def ensureNewLine_def)

lemma write_st_fields [simp]:
  "delim (write_st c s) = delim s"
  "inTightList (write_st c s) = inTightList s"
  "opts (write_st c s) = opts s"
  "closed (write_st c s) = None"
  by (simp_all add: write_st_def Let_def split: option.splits)

lemma write_st_Some:
  "write_st (Some c) s = (write_st None s)\<lparr>out := out (write_st None s) @ c\<rparr>"
  by (simp add: write_st_def Let_def)

lemma write_st_midline: "\<not> atBlank s \<Longrightarrow> closed s = None \<Longrightarrow> write_st None s = s"
  by (simp add: write_st_def flushClose_def)

lemma write_st_blank:
  "closed s = None \<Longrightarrow> atBlank s \<Longrightarrow> write_st None s = s\<lparr>out := out s @ delim s\<rparr>"
  by (simp add: write_st_def flushClose_def)


text \<open>
  The first-line prefix \<open>m\<close> of a block written after a pending closure: the line break
  if one is needed, the blank lines of the flush, the line prefix, and \<open>m\<close>.
\<close>

lemma write_after_flush:
  assumes "closed s \<noteq> None" and "sz = 1 \<or> sz = 2 \<or> sz = 3"
  shows "out (write_st (Some m) (flushClose (Some sz) s)) =
           out (ensureNewLine s) @ concat (replicate (nat (sz - 1)) (trimEnd (delim s) @ [nl]))
             @ delim s @ m"
proof -
  define f where "f = flushClose (Some sz) s"
  have o: "out f = out (ensureNewLine s) @ concat (replicate (nat (sz - 1)) (trimEnd (delim s) @ [nl]))"
    and c: "closed f = None" and d: "delim f = delim s"
    using assms(1) by (simp_all add: f_def flushClose_pending)
  have b: "atBlank f"
    using assms(2) atBlank_ensureNewLine [of s]
    by (auto simp add: atBlank_def o numeral_2_eq_2)
  have "write_st None f = f\<lparr>out := out f @ delim f\<rparr>"
    using write_st_blank [OF c b] .
  then show ?thesis
    by (simp add: write_st_Some [of m f] o d flip: f_def)
qed

lemma write_default_flush:
  assumes "closed s \<noteq> None"
  shows "out (write_st (Some m) s) =
           out (ensureNewLine s) @ trimEnd (delim s) @ [nl] @ delim s @ m"
proof -
  have "write_st (Some m) s = write_st (Some m) (flushClose (Some 2) s)"
    by (simp add: write_st_def flushClose_def Let_def)
  then show ?thesis using write_after_flush [OF assms, of 2 m] by simp
qed

lemma trimEnd_app: "trimEnd d @ rev (takeWhile isSpace (rev d)) = d"
  unfolding trimEnd_def
  by (metis rev_append rev_rev_ident takeWhile_dropWhile_id)

lemma trimEnd_last: "trimEnd d \<noteq> [] \<Longrightarrow> \<not> isSpace (last (trimEnd d))"
  unfolding trimEnd_def
  by (metis hd_dropWhile last_rev rev_is_Nil_conv)

lemma repeat_single: "repeat [c] n = replicate n c"
  by (induction n) (simp_all add: replicate_append_same)

subsection \<open>Writing text\<close>

lemma split_lines_nonempty: "split_lines t \<noteq> []"
  by (induction t) (auto split: list.splits)

lemma split_lines_no_nl: "nl \<notin> set t \<Longrightarrow> split_lines t = [t]"
  by (induction t) auto

text \<open>
  The output of the loop of \<open>text\<close>: after the first line every line starts a fresh
  output line, so it follows the line prefix and is escaped as a line start.
\<close>

lemma text_lines_out:
  "text_lines escape (l # ls) s =
     (write_st None s)\<lparr>out := out (write_st None s)
        @ lineText escape (atBlank s \<or> closed s \<noteq> None) l
        @ concat (map (\<lambda>l'. nl # delim s @ lineText escape True l') ls)\<rparr>"
proof (induction ls arbitrary: l s)
  case Nil
  show ?case by (simp add: Let_def lineText_def)
next
  case (Cons l2 ls)
  define w where "w = write_st None s"
  define s3 where "s3 = w\<lparr>out := out w @ lineText escape (atBlank s \<or> closed s \<noteq> None) l @ [nl]\<rparr>"
  have c3: "closed s3 = None" and b3: "atBlank s3" and d3: "delim s3 = delim s"
    by (simp_all add: s3_def w_def atBlank_def)
  have "text_lines escape (l # l2 # ls) s = text_lines escape (l2 # ls) s3"
    by (simp add: Let_def s3_def w_def lineText_def)
  also have "\<dots> = (write_st None s3)\<lparr>out := out (write_st None s3)
        @ lineText escape True l2
        @ concat (map (\<lambda>l'. nl # delim s3 @ lineText escape True l') ls)\<rparr>"
    using Cons.IH [of l2 s3] b3 by simp
  also have "write_st None s3 = s3\<lparr>out := out s3 @ delim s\<rparr>"
    using write_st_blank [OF c3 b3] d3 by simp
  finally show ?case
    by (simp add: s3_def w_def d3)
qed

lemma split_lines_join:
  "split_lines x = l # ls \<Longrightarrow> l @ concat (map (\<lambda>l'. nl # d @ l') ls) = prefixLines d x"
proof (induction x arbitrary: l ls)
  case Nil
  then show ?case by (simp add: prefixLines_def)
next
  case (Cons c x)
  obtain l0 ls0 where sp: "split_lines x = l0 # ls0"
    using split_lines_nonempty [of x] by (cases "split_lines x") auto
  have ih: "l0 @ concat (map (\<lambda>l'. nl # d @ l') ls0) = prefixLines d x"
    using Cons.IH [OF sp] .
  show ?case
  proof (cases "c = nl")
    case True
    with Cons.prems sp have "l = []" "ls = l0 # ls0" by auto
    then show ?thesis using ih True by (simp add: prefixLines_def)
  next
    case False
    with Cons.prems sp have "l = c # l0" "ls = ls0" by auto
    then show ?thesis using ih False by (simp add: prefixLines_def)
  qed
qed

lemma text_st_raw_out:
  "text_st x False s = (write_st None s)\<lparr>out := out (write_st None s) @ prefixLines (delim s) x\<rparr>"
proof -
  obtain l ls where sp: "split_lines x = l # ls"
    using split_lines_nonempty [of x] by (cases "split_lines x") auto
  show ?thesis
    using split_lines_join [OF sp, of "delim s"]
    by (simp add: text_st_def sp text_lines_out lineText_def del: text_lines.simps)
qed

lemma prefixLines_plain: "nl \<notin> set x \<or> d = [] \<Longrightarrow> prefixLines d x = x"
  by (induction x) (auto simp: prefixLines_def)

lemma text_st_fields [simp]:
  "delim (text_st x e s) = delim s"
  "inTightList (text_st x e s) = inTightList s"
  "opts (text_st x e s) = opts s"
  "closed (text_st x e s) = None"
proof -
  obtain l ls where sp: "split_lines x = l # ls"
    using split_lines_nonempty [of x] by (cases "split_lines x") auto
  show "delim (text_st x e s) = delim s"
    "inTightList (text_st x e s) = inTightList s"
    "opts (text_st x e s) = opts s"
    "closed (text_st x e s) = None"
    by (simp_all add: text_st_def sp text_lines_out del: text_lines.simps)
qed

subsection \<open>Escaping\<close>

lemma replaceSpecial_concat: "replaceSpecial str = escapeAnywhere str"
  by (induction str) (simp_all add: escapeAnywhere_def)

lemma isLineStartSpecial_not_special: "isLineStartSpecial c \<Longrightarrow> \<not> isSpecial c"
  by (auto simp: isLineStartSpecial_def isSpecial_def)

lemma bslash_not_lineStart: "\<not> isLineStartSpecial bslash"
  by (simp add: isLineStartSpecial_def)

lemma esc_char:
  "esc str atLineStart =
     (if atLineStart \<and> str \<noteq> [] \<and> isLineStartSpecial (hd str)
      then bslash # escapeAnywhere str else escapeAnywhere str)"
proof (cases str)
  case Nil
  then show ?thesis by (simp add: esc_def escapeAnywhere_def)
next
  case (Cons c cs)
  have e: "escapeAnywhere (c # cs) =
             (if isSpecial c then bslash # c # escapeAnywhere cs else c # escapeAnywhere cs)"
    by (simp add: escapeAnywhere_def)
  show ?thesis
    using isLineStartSpecial_not_special [of c] bslash_not_lineStart
    by (auto simp add: Cons esc_def replaceSpecial_concat e Let_def)
qed

text \<open>
  Claim C3. \<open>esc\<close> puts a backslash before every occurrence of \<open>` * \ ~ + [ ]\<close>, and
  before a leading \<open>:\<close>, \<open>#\<close> or \<open>-\<close> exactly when its flag is true. \<open>text\<close> sets the
  flag for the first line of a text run exactly when the run starts a fresh output line
  (the buffer is at a blank position or a block closure is pending, so that the run
  follows the line prefix), and for every further line of the run, which starts a fresh
  output line as well. A run without line break that continues a line is appended with
  the characters \<open>: # -\<close> left alone.
\<close>

theorem esc_line_start_only:
  "esc str atLineStart =
     (if atLineStart \<and> str \<noteq> [] \<and> isLineStartSpecial (hd str)
      then bslash # escapeAnywhere str else escapeAnywhere str)
   \<and> (split_lines t = l # ls \<longrightarrow>
        out (text_st t True s) =
          out (write_st None s) @ esc l (atBlank s \<or> closed s \<noteq> None)
            @ concat (map (\<lambda>l'. nl # delim s @ esc l' True) ls))
   \<and> (nl \<notin> set t \<and> \<not> atBlank s \<and> closed s = None \<longrightarrow>
        out (text_st t True s) = out s @ escapeAnywhere t)"
proof -
  have 1: "out (text_st t True s) =
          out (write_st None s) @ esc l (atBlank s \<or> closed s \<noteq> None)
            @ concat (map (\<lambda>l'. nl # delim s @ esc l' True) ls)" if "split_lines t = l # ls"
    for l ls
    by (simp add: text_st_def that text_lines_out lineText_def del: text_lines.simps)
  have 2: "out (text_st t True s) = out s @ escapeAnywhere t"
    if "nl \<notin> set t \<and> \<not> atBlank s \<and> closed s = None"
    using that 1 [of t "[]"] esc_char [of t False] write_st_midline [of s]
    by (simp add: split_lines_no_nl)
  show ?thesis using 1 2 esc_char by blast
qed

theorem esc_line_start_only_witness:
  "esc ''#a*b-c'' True = [bslash, CHR ''#'', CHR ''a'', bslash, CHR ''*'', CHR ''b'', CHR ''-'', CHR ''c'']
   \<and> esc ''#a*b-c'' False = [CHR ''#'', CHR ''a'', bslash, CHR ''*'', CHR ''b'', CHR ''-'', CHR ''c'']
   \<and> split_lines ''-a\<newline>#b'' = [''-a'', ''#b'']
   \<and> out (text_st ''-a\<newline>#b'' True ((MarkdownSerializer \<lparr>hardBreak = None\<rparr>)\<lparr>out := ''x''\<rparr>))
       = [CHR ''x'', CHR ''-'', CHR ''a'', nl, bslash, CHR ''#'', CHR ''b'']
   \<and> nl \<notin> set ''#a'' \<and> \<not> atBlank ((MarkdownSerializer \<lparr>hardBreak = None\<rparr>)\<lparr>out := ''x''\<rparr>)
   \<and> closed ((MarkdownSerializer \<lparr>hardBreak = None\<rparr>)\<lparr>out := ''x''\<rparr>) = None
   \<and> out (text_st ''#a'' True ((MarkdownSerializer \<lparr>hardBreak = None\<rparr>)\<lparr>out := ''x''\<rparr>)) = ''x#a''"
  using esc_line_start_only [where str = "''#a*b-c''" and atLineStart = True
      and t = "''-a\<newline>#b''" and l = "''-a''" and ls = "[''#b'']"
      and s = "(MarkdownSerializer \<lparr>hardBreak = None\<rparr>)\<lparr>out := ''x''\<rparr>"]
    esc_line_start_only [where str = "''#a*b-c''" and atLineStart = False
      and t = "''#a''" and l = "''#a''" and ls = "[]"
      and s = "(MarkdownSerializer \<lparr>hardBreak = None\<rparr>)\<lparr>out := ''x''\<rparr>"]
  by (simp add: escapeAnywhere_def esc_def isSpecial_def isLineStartSpecial_def atBlank_def
      MarkdownSerializer_def write_st_def flushClose_def)

subsection \<open>Deferred block closing\<close>

text \<open>
  Claim C4, as the code has it. With a block closure pending, \<open>flushClose(size)\<close> appends a
  line break unless the buffer is at a blank position (empty, or ending with a line
  break), then \<open>size - 1\<close> lines (none when \<open>size \<le> 1\<close>) that each consist of the current
  prefix without its trailing whitespace and a line break, and clears the pending flag;
  an omitted size counts as 2; with no closure pending nothing changes. The trimmed
  prefix is the prefix up to its last character that is not whitespace, so that the
  blockquote prefix gives \<open>>\<close>.
\<close>

theorem flushClose_blank_lines:
  "(closed s \<noteq> None \<longrightarrow>
      flushClose (Some sz) s =
        s\<lparr>out := (if atBlank s then out s else out s @ [nl])
                  @ concat (replicate (nat (sz - 1)) (trimEnd (delim s) @ [nl])),
          closed := None\<rparr>)
   \<and> (closed s = None \<longrightarrow> flushClose (Some sz) s = s)
   \<and> flushClose None s = flushClose (Some 2) s
   \<and> trimEnd d @ rev (takeWhile isSpace (rev d)) = d
   \<and> (trimEnd d \<noteq> [] \<longrightarrow> \<not> isSpace (last (trimEnd d)))
   \<and> trimEnd ''> '' = ''>''"
proof -
  have 1: "trimEnd ''> '' = ''>''"
    by (simp add: trimEnd_def isSpace_def)
  have 2: "flushClose None s = flushClose (Some 2) s"
    by (simp add: flushClose_def Let_def)
  have 3: "closed s = None \<longrightarrow> flushClose (Some sz) s = s"
    by (simp add: flushClose_def)
  have 4: "closed s \<noteq> None \<longrightarrow>
      flushClose (Some sz) s =
        s\<lparr>out := (if atBlank s then out s else out s @ [nl])
                  @ concat (replicate (nat (sz - 1)) (trimEnd (delim s) @ [nl])),
          closed := None\<rparr>"
    by (simp add: flushClose_def Let_def)
  show ?thesis using 1 2 3 4 trimEnd_app trimEnd_last by blast
qed

theorem flushClose_blank_lines_witness:
  "closed \<lparr>out = ''> a'', delim = ''> '', closed = Some (Paragraph []), inTightList = False,
           opts = \<lparr>hardBreak = None\<rparr>\<rparr> \<noteq> None
   \<and> flushClose (Some 3)
       \<lparr>out = ''> a'', delim = ''> '', closed = Some (Paragraph []), inTightList = False,
        opts = \<lparr>hardBreak = None\<rparr>\<rparr>
     = \<lparr>out = ''> a\<newline>>\<newline>>\<newline>'', delim = ''> '', closed = None, inTightList = False,
        opts = \<lparr>hardBreak = None\<rparr>\<rparr>
   \<and> closed \<lparr>out = ''> a'', delim = ''> '', closed = None, inTightList = False,
             opts = \<lparr>hardBreak = None\<rparr>\<rparr> = None
   \<and> flushClose (Some 3)
       \<lparr>out = ''> a'', delim = ''> '', closed = None, inTightList = False,
        opts = \<lparr>hardBreak = None\<rparr>\<rparr>
     = \<lparr>out = ''> a'', delim = ''> '', closed = None, inTightList = False,
        opts = \<lparr>hardBreak = None\<rparr>\<rparr>
   \<and> trimEnd ''>   '' \<noteq> [] \<and> \<not> isSpace (last (trimEnd ''>   ''))"
  using flushClose_blank_lines [of "\<lparr>out = ''> a'', delim = ''> '', closed = Some (Paragraph []),
          inTightList = False, opts = \<lparr>hardBreak = None\<rparr>\<rparr>" 3 "''>   ''"]
    flushClose_blank_lines [of "\<lparr>out = ''> a'', delim = ''> '', closed = None,
          inTightList = False, opts = \<lparr>hardBreak = None\<rparr>\<rparr>" 3 "''>   ''"]
  by (simp add: atBlank_def trimEnd_def isSpace_def numeral_2_eq_2)

text \<open>
  The claim as stated says that the buffer ends with a line break after the first step.
  An empty paragraph leaves the buffer empty with its closure pending; there
  \<open>flushClose(1)\<close> leaves the buffer empty, and \<open>flushClose(2)\<close> gives a single line
  break, so that an empty paragraph followed by the paragraph \<open>x\<close> serializes to one line
  break and \<open>x\<close>.
\<close>

theorem flushClose_empty_buffer_counterexample:
  "closed (render (Paragraph []) (MarkdownSerializer \<lparr>hardBreak = None\<rparr>)) \<noteq> None
   \<and> out (flushClose (Some 1) (render (Paragraph []) (MarkdownSerializer \<lparr>hardBreak = None\<rparr>))) = []
   \<and> out (flushClose (Some 2) (render (Paragraph []) (MarkdownSerializer \<lparr>hardBreak = None\<rparr>))) = [nl]
   \<and> toMarkdown [Paragraph [], Paragraph [Text ''x'' []]] \<lparr>hardBreak = None\<rparr> = [nl, CHR ''x'']"
  by code_simp

subsection \<open>Images and hard breaks\<close>

text \<open>
  Claim C9. An image is written as \<open>![\<close>, the escaped alt text, \<open>](\<close>, the escaped
  source, the title segment and \<open>)\<close>. An absent alt text counts as the empty string,
  whatever the title is: the image is rendered as the one with the empty alt text. An
  absent title gives no title segment, whatever the alt text is, and so does an empty
  title; a title that is there gives a space and the quoted title. Rendering is a total
  function, so nothing fails. The image with source \<open>a.png\<close> alone in a paragraph
  serializes to \<open>![](a.png)\<close>.
\<close>

theorem image_absent_alt_title:
  "render (Image None src title ms) s = render (Image (Some []) src title ms) s
   \<and> render (Image None src title ms) s =
       write_st (Some (''![]('' @ esc src False @
          (case title of None \<Rightarrow> [] | Some t \<Rightarrow> if t = [] then [] else '' '' @ quote t) @ '')'')) s
   \<and> render (Image alt src None ms) s =
       write_st (Some (''!['' @ esc (case alt of None \<Rightarrow> [] | Some a \<Rightarrow> a) False
          @ '']('' @ esc src False @ '')'')) s
   \<and> render (Image alt src (Some []) ms) s = render (Image alt src None ms) s
   \<and> render (Image None src None ms) s = write_st (Some (''![]('' @ esc src False @ '')'')) s
   \<and> render (Image (Some []) src (Some []) ms) s = write_st (Some (''![]('' @ esc src False @ '')'')) s
   \<and> toMarkdown [Paragraph [Image None ''a.png'' None []]] options = ''![](a.png)''
   \<and> toMarkdown [Paragraph [Image None ''a.png'' (Some ''T'') []]] options = ''![](a.png '' @ [CHR 0x22, CHR ''T'', CHR 0x22] @ '')''
   \<and> toMarkdown [Paragraph [Image (Some ''x*'') ''a.png'' None []]] options
       = [CHR ''!'', CHR ''['', CHR ''x'', bslash, CHR ''*'', CHR '']'', CHR ''('',
          CHR ''a'', CHR ''.'', CHR ''p'', CHR ''n'', CHR ''g'', CHR '')'']"
proof -
  have 1: "toMarkdown [Paragraph [Image None ''a.png'' None []]] options = ''![](a.png)''"
    by code_simp
  have 2: "toMarkdown [Paragraph [Image None ''a.png'' (Some ''T'') []]] options = ''![](a.png '' @ [CHR 0x22, CHR ''T'', CHR 0x22] @ '')''"
    by code_simp
  have 3: "toMarkdown [Paragraph [Image (Some ''x*'') ''a.png'' None []]] options
       = [CHR ''!'', CHR ''['', CHR ''x'', bslash, CHR ''*'', CHR '']'', CHR ''('',
          CHR ''a'', CHR ''.'', CHR ''p'', CHR ''n'', CHR ''g'', CHR '')'']"
    by code_simp
  have 4: "esc [] False = []" by (simp add: esc_def)
  show ?thesis using 1 2 3 by (simp add: render.simps 4)
qed

text \<open>
  Claim C10. A hard break writes the \<open>hardBreak\<close> option when it is a non-empty string,
  and a backslash followed by a line break when the option is absent or empty: the empty
  string does not suppress the markup.
\<close>

theorem hardBreak_option_or_default:
  "out (render (HardBreak ms) s) =
     out (write_st None s) @
       (if hardBreak (opts s) = None \<or> hardBreak (opts s) = Some [] then [bslash, nl]
        else the (hardBreak (opts s)))
   \<and> toMarkdown [Paragraph [Text ''a'' [], HardBreak [], Text ''b'' []]] \<lparr>hardBreak = Some []\<rparr>
       = [CHR ''a'', bslash, nl, CHR ''b'']
   \<and> toMarkdown [Paragraph [Text ''a'' [], HardBreak [], Text ''b'' []]] \<lparr>hardBreak = None\<rparr>
       = [CHR ''a'', bslash, nl, CHR ''b'']
   \<and> toMarkdown [Paragraph [Text ''a'' [], HardBreak [], Text ''b'' []]] \<lparr>hardBreak = Some ''  \<newline>''\<rparr>
       = [CHR ''a'', CHR '' '', CHR '' '', nl, CHR ''b'']"
proof -
  have 1: "out (render (HardBreak ms) s) =
     out (write_st None s) @
       (if hardBreak (opts s) = None \<or> hardBreak (opts s) = Some [] then [bslash, nl]
        else the (hardBreak (opts s)))"
    by (auto simp add: render.simps write_st_Some split: option.splits)
  have 2: "toMarkdown [Paragraph [Text ''a'' [], HardBreak [], Text ''b'' []]] \<lparr>hardBreak = Some []\<rparr>
       = [CHR ''a'', bslash, nl, CHR ''b'']"
    by code_simp
  have 3: "toMarkdown [Paragraph [Text ''a'' [], HardBreak [], Text ''b'' []]] \<lparr>hardBreak = None\<rparr>
       = [CHR ''a'', bslash, nl, CHR ''b'']"
    by code_simp
  have 4: "toMarkdown [Paragraph [Text ''a'' [], HardBreak [], Text ''b'' []]] \<lparr>hardBreak = Some ''  \<newline>''\<rparr>
       = [CHR ''a'', CHR '' '', CHR '' '', nl, CHR ''b'']"
    by code_simp
  show ?thesis using 1 2 3 4 by blast
qed

subsection \<open>Ordered lists\<close>

lemma String_nat_length_mono:
  "a \<le> b \<Longrightarrow> length (String_nat a) \<le> length (String_nat b)"
proof (induction b arbitrary: a rule: String_nat.induct)
  case (1 n)
  show ?case
  proof (cases "n < 10")
    case True
    with "1.prems" show ?thesis by (simp add: String_nat.simps [of a] String_nat.simps [of n])
  next
    case False
    show ?thesis
    proof (cases "a < 10")
      case True
      with False show ?thesis by (simp add: String_nat.simps [of a] String_nat.simps [of n])
    next
      case a: False
      have "a div 10 \<le> n div 10" using "1.prems" by (rule div_le_mono)
      then have "length (String_nat (a div 10)) \<le> length (String_nat (n div 10))"
        using "1.IH" [OF False] by blast
      with a False show ?thesis by (simp add: String_nat.simps [of a] String_nat.simps [of n])
    qed
  qed
qed

lemma String_int_length_mono:
  "0 \<le> a \<Longrightarrow> a \<le> b \<Longrightarrow> length (String_int a) \<le> length (String_int b)"
  using String_nat_length_mono [of "nat a" "nat b"] by (simp add: String_int_def)

text \<open>
  Claim C7, as the code has it. An ordered list whose first number \<open>start\<close> is a positive
  integer, with its largest item number \<open>start + count - 1\<close> not above \<open>2^53 - 1\<close>, passes
  to \<open>renderList\<close> an indentation of \<open>maxW + 2\<close> spaces, \<open>maxW\<close> being the number of
  digits of \<open>start + count - 1\<close>, and for item \<open>i\<close> the prefix made of padding spaces,
  the number \<open>start + i\<close> and \<open>". "\<close>. No item number has more than \<open>maxW\<close> digits, so
  every item prefix is \<open>maxW + 2\<close> characters long, the width of the indentation of
  continuation lines. With start 9 and the items \<open>a\<close> and \<open>b\<close> the lines are \<open> 9. a\<close> and
  \<open>10. b\<close> (next to each other in a tight list, a blank line apart otherwise), and
  further blocks and lines of an item are indented by four spaces.
\<close>

theorem orderedList_right_aligned:
  assumes "start = (case order of None \<Rightarrow> 1 | Some n \<Rightarrow> if n = 0 then 1 else n)"
    and "0 < start"
    and "start + int (length cs) - 1 \<le> 9007199254740991"
    and "maxW = length (String_int (start + int (length cs) - 1))"
  shows "render (OrderedList order tight cs) s =
           renderList (OrderedList order tight cs) (replicate (maxW + 2) (CHR '' ''))
             (orderedFirstDelim start maxW) s
         \<and> (\<forall>i < length cs.
               orderedFirstDelim start maxW i =
                 replicate (maxW - length (String_int (start + int i))) (CHR '' '')
                   @ String_int (start + int i) @ ''. ''
               \<and> String_int (start + int i) = String_nat (nat (start + int i))
               \<and> length (String_int (start + int i)) \<le> maxW
               \<and> length (orderedFirstDelim start maxW i) = maxW + 2)
         \<and> toMarkdown [OrderedList (Some 9) True
                [ListItem [Paragraph [Text ''a'' []]], ListItem [Paragraph [Text ''b'' []]]]] options
             = '' 9. a\<newline>10. b''
         \<and> toMarkdown [OrderedList (Some 9) False
                [ListItem [Paragraph [Text ''a'' []]], ListItem [Paragraph [Text ''b'' []]]]] options
             = '' 9. a\<newline>\<newline>10. b''
         \<and> toMarkdown [OrderedList (Some 9) True
                [ListItem [Paragraph [Text ''a'' []], Paragraph [Text ''c'' []]],
                 ListItem [Paragraph [Text ''b\<newline>d'' []]]]] options
             = '' 9. a\<newline>\<newline>    c\<newline>10. b\<newline>    d''"
proof -
  have 1: "render (OrderedList order tight cs) s =
           renderList (OrderedList order tight cs) (replicate (maxW + 2) (CHR '' ''))
             (orderedFirstDelim start maxW) s"
  proof -
    have r: "repeat '' '' (maxW + 2) = replicate (maxW + 2) (CHR '' '')"
      by (rule repeat_single)
    show ?thesis
      unfolding render.simps Let_def assms(1) [symmetric] assms(4) [symmetric] r ..
  qed
  have 2: "length (String_int (start + int i)) \<le> maxW" if "i < length cs" for i
  proof -
    have "0 \<le> start + int i" "start + int i \<le> start + int (length cs) - 1"
      using that assms(2) by simp_all
    then show ?thesis unfolding assms(4) by (rule String_int_length_mono)
  qed
  have 3: "orderedFirstDelim start maxW i =
                 replicate (maxW - length (String_int (start + int i))) (CHR '' '')
                   @ String_int (start + int i) @ ''. ''" for i
    by (simp add: orderedFirstDelim_def Let_def repeat_single)
  have 4: "length (orderedFirstDelim start maxW i) = maxW + 2" if "i < length cs" for i
    using 2 [OF that] by (simp add: 3)
  have 5: "toMarkdown [OrderedList (Some 9) True
                [ListItem [Paragraph [Text ''a'' []]], ListItem [Paragraph [Text ''b'' []]]]] options
             = '' 9. a\<newline>10. b''"
    by code_simp
  have 6: "toMarkdown [OrderedList (Some 9) False
                [ListItem [Paragraph [Text ''a'' []]], ListItem [Paragraph [Text ''b'' []]]]] options
             = '' 9. a\<newline>\<newline>10. b''"
    by code_simp
  have 7: "toMarkdown [OrderedList (Some 9) True
                [ListItem [Paragraph [Text ''a'' []], Paragraph [Text ''c'' []]],
                 ListItem [Paragraph [Text ''b\<newline>d'' []]]]] options
             = '' 9. a\<newline>\<newline>    c\<newline>10. b\<newline>    d''"
    by code_simp
  have 8: "String_int (start + int i) = String_nat (nat (start + int i))" for i
    using assms(2) by (simp add: String_int_def)
  show ?thesis using 1 2 3 4 5 6 7 8 by blast
qed

theorem orderedList_right_aligned_witness:
  "(9::int) = (case Some 9 of None \<Rightarrow> 1 | Some n \<Rightarrow> if n = 0 then 1 else n)
   \<and> (0::int) < 9
   \<and> (9::int) + int (length [ListItem [], ListItem []]) - 1 \<le> 9007199254740991
   \<and> (2::nat) = length (String_int (9 + int (length [ListItem [], ListItem []]) - 1))
   \<and> (0::nat) < length [ListItem [], ListItem []]
   \<and> orderedFirstDelim 9 2 0 = '' 9. ''
   \<and> (1::nat) < length [ListItem [], ListItem []]
   \<and> orderedFirstDelim 9 2 1 = ''10. ''
   \<and> length (orderedFirstDelim 9 2 0) = 2 + 2
   \<and> length (orderedFirstDelim 9 2 1) = 2 + 2"
proof -
  have a: "(9::int) = (case Some 9 of None \<Rightarrow> 1 | Some n \<Rightarrow> if n = 0 then 1 else n)"
    by simp
  have p: "(0::int) < 9" by simp
  have u: "(9::int) + int (length [ListItem [], ListItem []]) - 1 \<le> 9007199254740991" by simp
  have b: "(2::nat) = length (String_int (9 + int (length [ListItem [], ListItem []]) - 1))"
    by code_simp
  have c: "String_int 9 = ''9''" "String_int 10 = ''10''"
    by code_simp+
  have i0: "(0::nat) < length [ListItem [], ListItem []]"
    and i1: "(1::nat) < length [ListItem [], ListItem []]" by simp_all
  note r = orderedList_right_aligned [OF a p u b, of False s options, THEN conjunct2, THEN conjunct1]
  have r0: "orderedFirstDelim 9 2 0 = '' 9. ''" "length (orderedFirstDelim 9 2 0) = 2 + 2"
    using r [rule_format, OF i0] by (simp_all add: c)
  have r1: "orderedFirstDelim 9 2 1 = ''10. ''" "length (orderedFirstDelim 9 2 1) = 2 + 2"
    using r [rule_format, OF i1] by (simp_all add: c)
  show ?thesis using a p u b i0 i1 r0 r1 by (intro conjI)
qed

text \<open>
  The claim as stated covers every ordered list. With the start number \<open>-1\<close> and three
  items the largest item number is 1, so \<open>maxW\<close> is 1 and continuation lines are
  indented by three spaces, while the prefix of the first item, \<open>-1. \<close>, is four
  characters long and gets no padding: the item numbers are not aligned to one width,
  and the second block of the first item starts one column to the left of the first.
\<close>

theorem orderedList_negative_start_counterexample:
  "length (String_int (- 1 + int (length [ListItem [], ListItem [], ListItem []]) - 1)) = 1
   \<and> orderedFirstDelim (- 1) 1 0 = ''-1. ''
   \<and> length (orderedFirstDelim (- 1) 1 0) \<noteq> 1 + 2
   \<and> toMarkdown [OrderedList (Some (- 1)) True
        [ListItem [Paragraph [Text ''a'' []], Paragraph [Text ''c'' []]],
         ListItem [Paragraph [Text ''b'' []]], ListItem [Paragraph [Text ''d'' []]]]] \<lparr>hardBreak = None\<rparr>
       = ''-1. a\<newline>\<newline>   c\<newline>0. b\<newline>1. d''"
  by code_simp

subsection \<open>The output only grows\<close>

lemma flushClose_mono: "prefix (out s) (out (flushClose sz s))"
  by (simp add: flushClose_def Let_def)

lemma write_st_mono: "prefix (out s) (out (write_st c s))"
proof -
  have "prefix (out (flushClose None s)) (out (write_st c s))"
    by (simp add: write_st_def Let_def split: option.splits)
  with flushClose_mono [of s None] show ?thesis by (rule prefix_order.trans)
qed

lemma text_st_mono: "prefix (out s) (out (text_st x e s))"
proof -
  obtain l ls where sp: "split_lines x = l # ls"
    using split_lines_nonempty [of x] by (cases "split_lines x") auto
  have "prefix (out (write_st None s)) (out (text_st x e s))"
    by (simp add: text_st_def sp text_lines_out del: text_lines.simps)
  with write_st_mono [of s None] show ?thesis by (rule prefix_order.trans)
qed

lemma ensureNewLine_mono: "prefix (out s) (out (ensureNewLine s))"
  by (simp add: ensureNewLine_def)

lemma closeMarks_mono: "prefix (out s) (out (snd (closeMarks keep active s)))"
proof (induction keep active s rule: closeMarks.induct)
  case (1 keep active s)
  show ?case
  proof (cases "keep < length active")
    case True
    have "prefix (out s) (out (text_st (markString (last active) False) False s))"
      by (rule text_st_mono)
    also have "prefix \<dots> (out (snd (closeMarks keep (butlast active)
                 (text_st (markString (last active) False) False s))))"
      using "1.IH" [OF True] .
    finally show ?thesis using True by (simp add: closeMarks.simps [of keep active s])
  next
    case False
    then show ?thesis by (simp add: closeMarks.simps [of keep active s])
  qed
qed

lemma openMarks_mono: "prefix (out s) (out (snd (openMarks len marks active s)))"
proof (induction len marks active s rule: openMarks.induct)
  case (1 len marks active s)
  show ?case
  proof (cases "length active < len")
    case True
    have "prefix (out s) (out (text_st (markString (marks ! length active) True) False s))"
      by (rule text_st_mono)
    also have "prefix \<dots> (out (snd (openMarks len marks (active @ [marks ! length active])
                 (text_st (markString (marks ! length active) True) False s))))"
      using "1.IH" [OF True refl] .
    finally show ?thesis using True by (simp add: openMarks.simps [of len marks active s] Let_def)
  next
    case False
    then show ?thesis by (simp add: openMarks.simps [of len marks active s])
  qed
qed

lemma progressMarks_mono: "prefix (out s) (out (snd (progressMarks marks active s)))"
proof -
  obtain a1 s1 where c: "closeMarks (keepFrom 0 (lenOf marks) active
       (reorderFrom 0 (lenOf marks) active marks)) active s = (a1, s1)"
    by (cases "closeMarks (keepFrom 0 (lenOf marks) active
       (reorderFrom 0 (lenOf marks) active marks)) active s") auto
  have "prefix (out s) (out s1)" using closeMarks_mono [of s _ active] c
    by (metis snd_conv)
  also have "prefix (out s1) (out (snd (openMarks (lenOf marks) (reorderFrom 0 (lenOf marks) active marks) a1 s1)))"
    by (rule openMarks_mono)
  finally show ?thesis by (simp add: progressMarks_def Let_def c)
qed

lemma wrapBlock_out:
  "out (wrapBlock d fd n f s) =
     out (f ((write_st (Some (case fd of None \<Rightarrow> d | Some x \<Rightarrow> if x = [] then d else x)) s)
              \<lparr>delim := delim s @ d\<rparr>))"
  by (simp add: wrapBlock_def Let_def closeBlock_def)

lemma wrapBlock_fields [simp]:
  "closed (wrapBlock d fd n f s) = Some n"
  "delim (wrapBlock d fd n f s) = delim s"
  by (simp_all add: wrapBlock_def Let_def closeBlock_def)

text \<open>Every rendering function extends the output buffer it is given.\<close>

lemma out_mono:
  "prefix (out s) (out (render n s))"
  "prefix (out s) (out (renderContent cs s))"
  "prefix (out s) (out (snd (progress no active s)))"
  "prefix (out s) (out (renderInlineFrom cs active s))"
  "prefix (out s) (out (renderList n d fd s))"
  "prefix (out s) (out (renderItems n d fd i cs s))"
proof (induction n s and cs s and no active s and cs active s and n d fd s and n d fd i cs s
    rule: render_renderContent_progress_renderInlineFrom_renderList_renderItems.induct)
  case (1 cs s)
  define w where "w = (write_st (Some ''> '') s)\<lparr>delim := delim s @ ''> ''\<rparr>"
  have "prefix (out s) (out w)" by (simp add: w_def write_st_mono)
  also have "prefix (out w) (out (renderContent cs w))" by (rule "1.IH")
  finally show ?case by (simp add: render.simps wrapBlock_out w_def)
next
  case (2 params textContent s)
  show ?case
  proof (cases params)
    case None
    define w where "w = (write_st (Some ''    '') s)\<lparr>delim := delim s @ ''    ''\<rparr>"
    have "prefix (out s) (out w)" by (simp add: w_def write_st_mono)
    also have "prefix (out w) (out (text_st textContent False w))" by (rule text_st_mono)
    finally show ?thesis by (simp add: render.simps wrapBlock_out w_def None)
  next
    case (Some p)
    define s1 where "s1 = write_st (Some (''```'' @ p @ [nl])) s"
    define s2 where "s2 = text_st textContent False s1"
    define s3 where "s3 = ensureNewLine s2"
    define s4 where "s4 = write_st (Some ''```'') s3"
    have "prefix (out s) (out s1)" unfolding s1_def by (rule write_st_mono)
    also have "prefix (out s1) (out s2)" unfolding s2_def by (rule text_st_mono)
    also have "prefix (out s2) (out s3)" unfolding s3_def by (rule ensureNewLine_mono)
    also have "prefix (out s3) (out s4)" unfolding s4_def by (rule write_st_mono)
    finally show ?thesis
      by (simp add: render.simps Some Let_def closeBlock_def s1_def s2_def s3_def s4_def)
  qed
next
  case (3 level cs s)
  define s1 where "s1 = write_st (Some (repeat ''#'' level @ '' '')) s"
  have "prefix (out s) (out s1)" unfolding s1_def by (rule write_st_mono)
  also have "prefix (out s1) (out (renderInlineFrom cs [] s1))"
    using "3.IH" [OF s1_def] .
  finally show ?case by (simp add: render.simps Let_def closeBlock_def s1_def)
next
  case (4 markup s)
  then show ?case by (simp add: render.simps Let_def closeBlock_def write_st_mono)
next
  case (5 bullet tight cs s)
  then show ?case by (simp add: render.simps)
next
  case (6 order tight cs s)
  then show ?case by (simp add: render.simps Let_def)
next
  case (7 cs s)
  then show ?case by (simp add: render.simps)
next
  case (8 cs s)
  then show ?case by (simp add: render.simps Let_def closeBlock_def)
next
  case (9 alt src title ms s)
  then show ?case by (simp add: render.simps write_st_mono)
next
  case (10 ms s)
  then show ?case by (simp add: render.simps write_st_mono)
next
  case (11 t ms s)
  then show ?case by (simp add: render.simps text_st_mono)
next
  case (12 s)
  then show ?case by (simp add: renderContent.simps)
next
  case (13 c cs s)
  have "prefix (out s) (out (render c s))" by (rule "13.IH"(1))
  also have "prefix \<dots> (out (renderContent cs (render c s)))" by (rule "13.IH"(2))
  finally show ?case by (simp add: renderContent.simps)
next
  case (14 active s)
  then show ?case by (simp add: progress.simps progressMarks_mono)
next
  case (15 n active s)
  obtain a1 s1 where pm: "progressMarks (marks_of n) active s = (a1, s1)"
    by (cases "progressMarks (marks_of n) active s") auto
  have m1: "prefix (out s) (out s1)"
    using progressMarks_mono [of s "marks_of n" active] by (simp add: pm)
  show ?case
  proof (cases "codeOf (marks_of n)")
    case None
    have "prefix (out s1) (out (render n s1))"
      using "15.IH"(1) [OF refl pm [symmetric] None] .
    with m1 have "prefix (out s) (out (render n s1))" by (rule prefix_order.trans)
    then show ?thesis by (simp add: progress.simps pm None)
  next
    case (Some code)
    show ?thesis
    proof (cases "isText n")
      case True
      have "prefix (out s1) (out (text_st (markString code False @ node_text n @ markString code True) False s1))"
        by (rule text_st_mono)
      with m1 have "prefix (out s) (out (text_st (markString code False @ node_text n @ markString code True) False s1))"
        by (rule prefix_order.trans)
      then show ?thesis by (simp add: progress.simps pm Some True)
    next
      case False
      have "prefix (out s1) (out (render n s1))"
        using "15.IH"(2) [OF refl pm [symmetric] Some False] .
      with m1 have "prefix (out s) (out (render n s1))" by (rule prefix_order.trans)
      then show ?thesis by (simp add: progress.simps pm Some False)
    qed
  qed
next
  case (16 active s)
  then show ?case by (simp add: renderInlineFrom.simps)
next
  case (17 c cs active s)
  obtain a1 s1 where p: "progress (Some c) active s = (a1, s1)"
    by (cases "progress (Some c) active s") auto
  have "prefix (out s) (out s1)" using "17.IH"(1) by (simp add: p)
  also have "prefix (out s1) (out (renderInlineFrom cs a1 s1))"
    using "17.IH"(2) [OF refl p [symmetric]] .
  finally show ?case by (simp add: renderInlineFrom.simps p)
next
  case (18 n d firstDelim s)
  define s0 where "s0 = (if closed s \<noteq> None \<and> type_of (the (closed s)) = type_of n then flushClose (Some 3) s
                else if inTightList s then flushClose (Some 1) s
                else s)"
  define s1 where "s1 = s0\<lparr>inTightList := tight_of n\<rparr>"
  have "prefix (out s) (out s1)" by (simp add: s1_def s0_def flushClose_mono)
  also have "prefix (out s1) (out (renderItems n d firstDelim 0 (children_of n) s1))"
    using "18.IH" [OF s0_def refl s1_def] .
  finally show ?case by (simp add: renderList.simps Let_def s0_def s1_def)
next
  case (19 n d firstDelim i s)
  then show ?case by (simp add: renderItems.simps)
next
  case (20 n d firstDelim i c cs s)
  define s1 where "s1 = (if i \<noteq> 0 \<and> tight_of n then flushClose (Some 1) s else s)"
  define w where "w = (write_st (Some (if firstDelim i = [] then d else firstDelim i)) s1)\<lparr>delim := delim s1 @ d\<rparr>"
  define s2 where "s2 = wrapBlock d (Some (firstDelim i)) n (\<lambda>t. render c t) s1"
  have "prefix (out s) (out s1)" by (simp add: s1_def flushClose_mono)
  also have "prefix (out s1) (out w)" by (simp add: w_def write_st_mono)
  also have "prefix (out w) (out (render c w))" by (rule "20.IH"(1) [OF s1_def])
  also have "out (render c w) = out s2" by (simp add: s2_def wrapBlock_out w_def)
  also have "prefix (out s2) (out (renderItems n d firstDelim (Suc i) cs s2))"
    by (rule "20.IH"(2) [OF s1_def s2_def])
  finally show ?case by (simp add: renderItems.simps Let_def s1_def s2_def)
qed

subsection \<open>Lists\<close>

lemma renderItems_append:
  "renderItems n d fd i (xs @ ys) s = renderItems n d fd (i + length xs) ys (renderItems n d fd i xs s)"
  by (induction xs arbitrary: i s) (simp_all add: renderItems.simps Let_def)

text \<open>After its last item a list with items leaves its own closure pending.\<close>

lemma renderItems_closed:
  "cs \<noteq> [] \<Longrightarrow> closed (renderItems n d fd i cs s) = Some n"
proof (induction cs arbitrary: i s rule: rev_induct)
  case Nil
  then show ?case by simp
next
  case (snoc c cs)
  show ?case
    by (simp add: renderItems_append renderItems.simps Let_def)
qed


text \<open>
  The output of the items from item \<open>i\<close> on starts with what \<open>write\<close> gives for the
  first-line prefix of item \<open>i\<close>.
\<close>

lemma first_item_out:
  "prefix (out (write_st (Some (if fd i = [] then d else fd i))
                  (if i \<noteq> 0 \<and> tight_of n then flushClose (Some 1) s else s)))
          (out (renderItems n d fd i (c # cs) s))"
proof -
  define s1 where "s1 = (if i \<noteq> 0 \<and> tight_of n then flushClose (Some 1) s else s)"
  define w where "w = (write_st (Some (if fd i = [] then d else fd i)) s1)\<lparr>delim := delim s1 @ d\<rparr>"
  define s2 where "s2 = wrapBlock d (Some (fd i)) n (\<lambda>t. render c t) s1"
  have "prefix (out w) (out (render c w))" by (rule out_mono(1))
  also have "out (render c w) = out s2" by (simp add: s2_def wrapBlock_out w_def)
  also have "prefix (out s2) (out (renderItems n d fd (Suc i) cs s2))"
    by (rule out_mono(6))
  finally have "prefix (out w) (out (renderItems n d fd i (c # cs) s))"
    by (simp add: renderItems.simps Let_def s1_def s2_def)
  then show ?thesis by (simp add: w_def s1_def)
qed


text \<open>
  Claim C6, as the code has it. Take two consecutive items \<open>c1\<close> and \<open>c2\<close> of a list
  \<open>n\<close>, and let \<open>s1\<close> be the state when \<open>c1\<close> has been rendered; the closure of the list
  is pending there. When the list is tight, \<open>c2\<close> is preceded by \<open>flushClose(1)\<close>: what
  follows the output of \<open>c1\<close> is the line break that ends its last line (none if that
  line is ended already), the line prefix and the first-line prefix of \<open>c2\<close>, so no
  blank line is added. When the list is not tight, one blank line (the trimmed line
  prefix and a line break) is added between that line break and the line prefix. The
  bullet list of the items \<open>a\<close> and \<open>b\<close> gives \<open>* a\<close> and \<open>* b\<close> on adjacent lines when
  tight, and with one blank line between them when not. The last two conjuncts are the
  step of the loop for \<open>c2\<close> (\<open>flushClose(1)\<close> first when the list is tight, then
  \<open>wrapBlock\<close>) and what \<open>ensureNewLine\<close> appends.
\<close>

theorem list_item_spacing:
  assumes "s1 = renderItems n d fd i (pre @ [c1]) s"
    and "j = i + length pre + 1"
    and "m = (if fd j = [] then d else fd j)"
  shows "renderItems n d fd i (pre @ c1 # c2 # post) s = renderItems n d fd j (c2 # post) s1
         \<and> closed s1 = Some n
         \<and> (tight_of n \<longrightarrow>
              prefix (out (ensureNewLine s1) @ delim s1 @ m)
                     (out (renderItems n d fd i (pre @ c1 # c2 # post) s)))
         \<and> (\<not> tight_of n \<longrightarrow>
              prefix (out (ensureNewLine s1) @ trimEnd (delim s1) @ [nl] @ delim s1 @ m)
                     (out (renderItems n d fd i (pre @ c1 # c2 # post) s)))
         \<and> toMarkdown [BulletList None True
               [ListItem [Paragraph [Text ''a'' []]], ListItem [Paragraph [Text ''b'' []]]]] options
             = ''* a\<newline>* b''
         \<and> toMarkdown [BulletList None False
               [ListItem [Paragraph [Text ''a'' []]], ListItem [Paragraph [Text ''b'' []]]]] options
             = ''* a\<newline>\<newline>* b''
         \<and> toMarkdown [BlockQuote [BulletList None False
               [ListItem [Paragraph [Text ''a'' []]], ListItem [Paragraph [Text ''b'' []]]]]] options
             = ''> * a\<newline>>\<newline>> * b''
         \<and> renderItems n d fd j (c2 # post) s1 =
             renderItems n d fd (Suc j) post
               (wrapBlock d (Some (fd j)) n (\<lambda>t. render c2 t)
                  (if tight_of n then flushClose (Some 1) s1 else s1))
         \<and> out (ensureNewLine s1) = out s1 @ (if atBlank s1 then [] else [nl])"
proof -
  have 1: "renderItems n d fd i (pre @ c1 # c2 # post) s = renderItems n d fd j (c2 # post) s1"
    using renderItems_append [of n d fd i "pre @ [c1]" "c2 # post" s]
    by (simp add: assms)
  have 2: "closed s1 = Some n"
    unfolding assms(1) by (rule renderItems_closed) simp
  have j: "j \<noteq> 0" using assms(2) by simp
  have p: "prefix (out (write_st (Some m) (if tight_of n then flushClose (Some 1) s1 else s1)))
                  (out (renderItems n d fd j (c2 # post) s1))"
    using first_item_out [of fd j d n s1 c2 post] j by (simp add: assms(3))
  have 3: "prefix (out (ensureNewLine s1) @ delim s1 @ m)
                     (out (renderItems n d fd i (pre @ c1 # c2 # post) s))" if "tight_of n"
    using p that write_after_flush [of s1 1 m] 2 by (simp add: 1)
  have 4: "prefix (out (ensureNewLine s1) @ trimEnd (delim s1) @ [nl] @ delim s1 @ m)
                     (out (renderItems n d fd i (pre @ c1 # c2 # post) s))" if "\<not> tight_of n"
    using p that write_default_flush [of s1 m] 2 by (simp add: 1)
  have 5: "toMarkdown [BulletList None True
               [ListItem [Paragraph [Text ''a'' []]], ListItem [Paragraph [Text ''b'' []]]]] options
             = ''* a\<newline>* b''"
    by code_simp
  have 6: "toMarkdown [BulletList None False
               [ListItem [Paragraph [Text ''a'' []]], ListItem [Paragraph [Text ''b'' []]]]] options
             = ''* a\<newline>\<newline>* b''"
    by code_simp
  have 7: "toMarkdown [BlockQuote [BulletList None False
               [ListItem [Paragraph [Text ''a'' []]], ListItem [Paragraph [Text ''b'' []]]]]] options
             = ''> * a\<newline>>\<newline>> * b''"
    by code_simp
  have 8: "renderItems n d fd j (c2 # post) s1 =
             renderItems n d fd (Suc j) post
               (wrapBlock d (Some (fd j)) n (\<lambda>t. render c2 t)
                  (if tight_of n then flushClose (Some 1) s1 else s1))"
    using j by (simp add: renderItems.simps Let_def)
  have 9: "out (ensureNewLine s1) = out s1 @ (if atBlank s1 then [] else [nl])"
    by (simp add: ensureNewLine_def)
  show ?thesis using 1 2 3 4 5 6 7 8 9 by blast
qed

theorem list_item_spacing_witness:
  "tight_of (BulletList None True [ListItem [], ListItem []])
   \<and> prefix ''* \<newline>* ''
       (out (renderItems (BulletList None True [ListItem [], ListItem []]) ''  '' (\<lambda>i. ''* '') 0
              [ListItem [], ListItem []] (MarkdownSerializer \<lparr>hardBreak = None\<rparr>)))
   \<and> \<not> tight_of (BulletList None False [ListItem [], ListItem []])
   \<and> prefix ''* \<newline>\<newline>* ''
       (out (renderItems (BulletList None False [ListItem [], ListItem []]) ''  '' (\<lambda>i. ''* '') 0
              [ListItem [], ListItem []] (MarkdownSerializer \<lparr>hardBreak = None\<rparr>)))"
proof -
  have a: "renderItems (BulletList None True [ListItem [], ListItem []]) ''  '' (\<lambda>i. ''* '') 0
             [ListItem []] (MarkdownSerializer \<lparr>hardBreak = None\<rparr>) =
           \<lparr>out = ''* '', delim = [], closed = Some (BulletList None True [ListItem [], ListItem []]),
            inTightList = False, opts = \<lparr>hardBreak = None\<rparr>\<rparr>"
    by code_simp
  have b: "renderItems (BulletList None False [ListItem [], ListItem []]) ''  '' (\<lambda>i. ''* '') 0
             [ListItem []] (MarkdownSerializer \<lparr>hardBreak = None\<rparr>) =
           \<lparr>out = ''* '', delim = [], closed = Some (BulletList None False [ListItem [], ListItem []]),
            inTightList = False, opts = \<lparr>hardBreak = None\<rparr>\<rparr>"
    by code_simp
  show ?thesis
    using list_item_spacing [where n = "BulletList None True [ListItem [], ListItem []]"
          and d = "''  ''" and fd = "\<lambda>i. ''* ''" and i = 0 and pre = "[]" and ?c1.0 = "ListItem []"
          and s = "MarkdownSerializer \<lparr>hardBreak = None\<rparr>" and ?c2.0 = "ListItem []"
          and post = "[]", OF refl refl refl, THEN conjunct2, THEN conjunct2]
      list_item_spacing [where n = "BulletList None False [ListItem [], ListItem []]"
          and d = "''  ''" and fd = "\<lambda>i. ''* ''" and i = 0 and pre = "[]" and ?c1.0 = "ListItem []"
          and s = "MarkdownSerializer \<lparr>hardBreak = None\<rparr>" and ?c2.0 = "ListItem []"
          and post = "[]", OF refl refl refl, THEN conjunct2, THEN conjunct2]
    by (simp add: a b ensureNewLine_def atBlank_def trimEnd_def)
qed

text \<open>
  The claim as stated has no blank line between any two items of a tight list, and one
  between the items of a list that is not tight. An item whose content ends with a line
  break (a text or a code block ending with one) leaves a last line that holds the line
  prefix only. In a tight list this whitespace-only line stands between the item and
  the next one; in a list that is not tight it stands before the blank line of the
  separation, so that two such lines separate the items.
\<close>

theorem list_item_trailing_break_counterexample:
  "toMarkdown [BulletList None True [ListItem [Paragraph [Text ''a\<newline>'' []]],
                 ListItem [Paragraph [Text ''b'' []]]]] \<lparr>hardBreak = None\<rparr>
     = ''* a\<newline>  \<newline>* b''
   \<and> toMarkdown [BulletList None True [ListItem [CodeBlock None ''x\<newline>''],
                 ListItem [Paragraph [Text ''b'' []]]]] \<lparr>hardBreak = None\<rparr>
     = ''*     x\<newline>      \<newline>* b''
   \<and> toMarkdown [BulletList None False [ListItem [Paragraph [Text ''a\<newline>'' []]],
                 ListItem [Paragraph [Text ''b'' []]]]] \<lparr>hardBreak = None\<rparr>
     = ''* a\<newline>  \<newline>\<newline>* b''"
  by code_simp











subsection \<open>Code spans\<close>

lemma codeOf_snoc: "codeOf (ms @ [CodeMark]) = Some CodeMark"
  by (simp add: codeOf_def)

text \<open>
  Claim C1, as the code has it. For a text node whose last mark is the code mark,
  \<open>progress\<close> makes the mark transitions for the other marks and then hands the
  backquote, the text of the node and the backquote as one string to \<open>text\<close> with
  escaping off. What reaches the output after the pending closure and the line prefix
  have been written is the backquote, the text with the current line prefix after each
  of its line breaks and no character escaped, and the backquote. It is the text itself
  between backquotes when the text has no line break or the line prefix is empty.
\<close>

theorem code_span_unescaped:
  "progress (Some (Text t (ms @ [CodeMark]))) active s =
     (fst (progressMarks (ms @ [CodeMark]) active s),
      text_st (openMarkdown CodeMark @ t @ closeMarkdown CodeMark) False
        (snd (progressMarks (ms @ [CodeMark]) active s)))
   \<and> out (text_st (openMarkdown CodeMark @ t @ closeMarkdown CodeMark) False s1) =
       out (write_st None s1) @ ''`'' @ prefixLines (delim s1) t @ ''`''
   \<and> (nl \<notin> set t \<or> delim s1 = [] \<longrightarrow>
        out (text_st (openMarkdown CodeMark @ t @ closeMarkdown CodeMark) False s1) =
          out (write_st None s1) @ ''`'' @ t @ ''`'')"
proof -
  have 1: "progress (Some (Text t (ms @ [CodeMark]))) active s =
     (fst (progressMarks (ms @ [CodeMark]) active s),
      text_st (openMarkdown CodeMark @ t @ closeMarkdown CodeMark) False
        (snd (progressMarks (ms @ [CodeMark]) active s)))"
    by (simp add: progress.simps codeOf_snoc markString_def split: prod.splits)
  have 2: "out (text_st (openMarkdown CodeMark @ t @ closeMarkdown CodeMark) False s1) =
       out (write_st None s1) @ ''`'' @ prefixLines (delim s1) t @ ''`''"
    by (simp add: text_st_raw_out prefixLines_def)
  have 3: "out (text_st (openMarkdown CodeMark @ t @ closeMarkdown CodeMark) False s1) =
          out (write_st None s1) @ ''`'' @ t @ ''`''" if "nl \<notin> set t \<or> delim s1 = []"
    using 2 prefixLines_plain [OF that] by simp
  show ?thesis using 1 2 3 by blast
qed

theorem code_span_unescaped_witness:
  "nl \<notin> set ''a*b''
   \<and> out (text_st (openMarkdown CodeMark @ ''a*b'' @ closeMarkdown CodeMark) False
             ((MarkdownSerializer \<lparr>hardBreak = None\<rparr>)\<lparr>out := ''x '', delim := ''> ''\<rparr>))
       = ''x `a*b`''"
  using code_span_unescaped [where t = "''a*b''"
      and ?s1.0 = "(MarkdownSerializer \<lparr>hardBreak = None\<rparr>)\<lparr>out := ''x '', delim := ''> ''\<rparr>",
      THEN conjunct2, THEN conjunct2]
  by (simp add: MarkdownSerializer_def write_st_def flushClose_def atBlank_def)

text \<open>
  The claim as stated has the raw text between the two backquotes. Inside a blockquote a
  code span whose text has a line break gets the blockquote prefix after the line break;
  no character of the text is escaped.
\<close>

theorem code_span_line_prefix_counterexample:
  "toMarkdown [BlockQuote [Paragraph [Text ''a\<newline>*b'' [CodeMark]]]] \<lparr>hardBreak = None\<rparr>
     = ''> `a\<newline>> *b`''
   \<and> toMarkdown [BlockQuote [Paragraph [Text ''a\<newline>*b'' [CodeMark]]]] \<lparr>hardBreak = None\<rparr>
     \<noteq> ''> `a\<newline>*b`''"
  by code_simp

subsection \<open>The inline renderer: balanced marks\<close>

lemma runOps_append: "runOps (xs @ ys) s = runOps ys (runOps xs s)"
  by (induction xs arbitrary: s) simp_all

lemma closeMarks_ops:
  "closeMarks keep active s = (fst (closeOps keep active), runOps (snd (closeOps keep active)) s)"
proof (induction keep active s rule: closeMarks.induct)
  case (1 keep active s)
  show ?case
  proof (cases "keep < length active")
    case True
    then show ?thesis
      using "1.IH" [OF True]
      by (simp add: closeMarks.simps [of keep active s] closeOps.simps [of keep active]
          split: prod.splits)
  next
    case False
    then show ?thesis
      by (simp add: closeMarks.simps [of keep active s] closeOps.simps [of keep active])
  qed
qed

lemma openMarks_ops:
  "openMarks len marks active s =
     (fst (openOps len marks active), runOps (snd (openOps len marks active)) s)"
proof (induction len marks active s rule: openMarks.induct)
  case (1 len marks active s)
  show ?case
  proof (cases "length active < len")
    case True
    then show ?thesis
      using "1.IH" [OF True refl]
      by (simp add: openMarks.simps [of len marks active s] openOps.simps [of len marks active]
          Let_def split: prod.splits)
  next
    case False
    then show ?thesis
      by (simp add: openMarks.simps [of len marks active s] openOps.simps [of len marks active])
  qed
qed

lemma progressMarks_ops:
  "progressMarks marks active s =
     (fst (progressOps marks active), runOps (snd (progressOps marks active)) s)"
  by (simp add: progressMarks_def progressOps_def Let_def closeMarks_ops openMarks_ops
      runOps_append split: prod.splits)

lemma progress_Some_ops:
  "progress (Some n) active s =
     (fst (progressOps (marks_of n) active),
      runOps (snd (progressOps (marks_of n) active) @ [Content n]) s)"
  by (simp add: progress.simps progressMarks_ops runOps_append split: option.splits)

text \<open>Rendering a run of inline children is running its recorded operations.\<close>

lemma renderInlineFrom_ops:
  "renderInlineFrom cs active s = runOps (inlineOps cs active) s"
proof (induction cs arbitrary: active s)
  case Nil
  show ?case by (simp add: renderInlineFrom.simps progress.simps progressMarks_ops)
next
  case (Cons c cs)
  show ?case
    by (simp add: renderInlineFrom.simps progress_Some_ops Cons.IH runOps_append
        case_prod_beta)
qed

lemma nested_append:
  "nested st (xs @ ys) = (case nested st xs of None \<Rightarrow> None | Some st1 \<Rightarrow> nested st1 ys)"
  by (induction st xs rule: nested.induct) simp_all

lemma closeOps_eq:
  "closeOps keep active = (take keep active, map CloseMark (rev (drop keep active)))"
proof (induction active rule: rev_induct)
  case Nil
  show ?case by (simp add: closeOps.simps [of keep "[]"])
next
  case (snoc m active)
  show ?case
  proof (cases "keep < length (active @ [m])")
    case True
    then show ?thesis
      using snoc by (simp add: closeOps.simps [of keep "active @ [m]"])
  next
    case False
    then show ?thesis by (simp add: closeOps.simps [of keep "active @ [m]"])
  qed
qed

lemma closeOps_nested:
  "nested active (snd (closeOps keep active)) = Some (fst (closeOps keep active))"
proof (induction keep active rule: closeOps.induct)
  case (1 keep active)
  show ?case
  proof (cases "keep < length active")
    case True
    then have "active \<noteq> []" by auto
    then show ?thesis
      using "1.IH" [OF True] True
      by (simp add: closeOps.simps [of keep active] case_prod_beta)
  next
    case False
    then show ?thesis by (simp add: closeOps.simps [of keep active])
  qed
qed

lemma openOps_nested:
  "nested active (snd (openOps len marks active)) = Some (fst (openOps len marks active))"
proof (induction len marks active rule: openOps.induct)
  case (1 len marks active)
  show ?case
  proof (cases "length active < len")
    case True
    then show ?thesis
      using "1.IH" [OF True refl]
      by (simp add: openOps.simps [of len marks active] Let_def case_prod_beta)
  next
    case False
    then show ?thesis by (simp add: openOps.simps [of len marks active])
  qed
qed

lemma progressOps_nested:
  "nested active (snd (progressOps marks active)) = Some (fst (progressOps marks active))"
  by (simp add: progressOps_def Let_def case_prod_beta nested_append closeOps_nested
      openOps_nested)

text \<open>The step with no child closes every active mark, the last opened first.\<close>

lemma progressOps_end: "progressOps [] active = ([], map CloseMark (rev active))"
  by (simp add: progressOps_def lenOf_def codeOf_def keepFrom.simps [of 0 0] closeOps_eq
      openOps.simps [of 0 _ "[]"])

lemma inlineOps_nested: "nested active (inlineOps cs active) = Some []"
proof (induction cs arbitrary: active)
  case Nil
  have "nested active (map CloseMark (rev active)) = Some []"
    by (induction active rule: rev_induct) simp_all
  then show ?case by (simp add: progressOps_end)
next
  case (Cons c cs)
  show ?case
    using progressOps_nested [of active "marks_of c"] Cons.IH
    by (simp add: nested_append case_prod_beta)
qed

text \<open>
  In a sequence that passes the stack check, the open marks on the stack plus the
  openings of a mark are as many as its closings plus what the stack holds at the end.
\<close>

lemma nested_count:
  "nested st ops = Some st1 \<Longrightarrow>
   count_list st m + count_list ops (OpenMark m) = count_list st1 m + count_list ops (CloseMark m)"
proof (induction st ops rule: nested.induct)
  case (1 st)
  then show ?case by simp
next
  case (2 st m' ops)
  then show ?case by auto
next
  case (3 st m' ops)
  from "3.prems" have ne: "st \<noteq> []" and l: "last st = m'"
    and n: "nested (butlast st) ops = Some st1"
    by (auto split: if_splits)
  have e: "butlast st @ [m'] = st" using append_butlast_last_id [OF ne] l by simp
  have "count_list (butlast st @ [m']) m = count_list (butlast st) m + (if m' = m then 1 else 0)"
    by simp
  then have c: "count_list st m = count_list (butlast st) m + (if m' = m then 1 else 0)"
    by (simp only: e)
  have "count_list (butlast st) m + count_list ops (OpenMark m) =
          count_list st1 m + count_list ops (CloseMark m)"
    using "3.IH" n ne l by simp
  then show ?case using c by simp
next
  case (4 st n ops)
  then show ?case by auto
qed

text \<open>
  Claim C2. Rendering a run of inline children performs a sequence of mark openings,
  mark closings and child renderings (the first conjunct). In that sequence every
  closing closes the mark that was opened last among the marks still open, so marks are
  closed in the reverse of the order in which they were opened, and no mark is open at
  the end of the run (the second conjunct); every mark is closed as many times as it is
  opened (the third). The step with no child returns the empty stack, having written the
  closing strings of all the marks that were active, the last opened first (the fourth).
  The last conjunct is an example with overlapping emphasis and strong spans.
\<close>

theorem marks_balanced:
  "renderInline cs s = runOps (inlineOps cs []) s
   \<and> nested [] (inlineOps cs []) = Some []
   \<and> count_list (inlineOps cs []) (OpenMark m) = count_list (inlineOps cs []) (CloseMark m)
   \<and> progress None active s = ([], runOps (map CloseMark (rev active)) s)
   \<and> inlineOps [Text ''a'' [EmMark], Text ''b'' [EmMark, StrongMark], Text ''c'' [StrongMark]] []
       = [OpenMark EmMark, Content (Text ''a'' [EmMark]),
          OpenMark StrongMark, Content (Text ''b'' [EmMark, StrongMark]),
          CloseMark StrongMark, CloseMark EmMark,
          OpenMark StrongMark, Content (Text ''c'' [StrongMark]), CloseMark StrongMark]"
proof -
  have 1: "renderInline cs s = runOps (inlineOps cs []) s"
    by (simp add: renderInline_def renderInlineFrom_ops)
  have 2: "nested [] (inlineOps cs []) = Some []"
    by (rule inlineOps_nested)
  have 3: "count_list (inlineOps cs []) (OpenMark m) = count_list (inlineOps cs []) (CloseMark m)"
    using nested_count [OF 2, of m] by simp
  have 4: "progress None active s = ([], runOps (map CloseMark (rev active)) s)"
    by (simp add: progress.simps progressMarks_ops progressOps_end)
  have 5: "inlineOps [Text ''a'' [EmMark], Text ''b'' [EmMark, StrongMark], Text ''c'' [StrongMark]] []
       = [OpenMark EmMark, Content (Text ''a'' [EmMark]),
          OpenMark StrongMark, Content (Text ''b'' [EmMark, StrongMark]),
          CloseMark StrongMark, CloseMark EmMark,
          OpenMark StrongMark, Content (Text ''c'' [StrongMark]), CloseMark StrongMark]"
    by code_simp
  show ?thesis using 1 2 3 4 5 by blast
qed

subsection \<open>The inline renderer: the reordering pass\<close>

lemma reorderFrom_length:
  "len \<le> length marks \<Longrightarrow> len \<le> length (reorderFrom i len active marks)"
proof (induction i len active marks rule: reorderFrom.induct)
  case (1 i len active marks)
  show ?case
  proof (cases "i < len \<and> markdownMixable (marks ! i)")
    case False
    then show ?thesis
      using "1.prems" by (auto simp add: reorderFrom.simps [of i len active marks] Let_def)
  next
    case True
    show ?thesis
    proof (cases "scanActive (marks ! i) active 0")
      case None
      then show ?thesis
        using True "1.IH"(1) [OF _ refl _ None] "1.prems"
        by (simp add: reorderFrom.simps [of i len active marks])
    next
      case (Some j)
      define marks' where "marks' =
        (if i > j then
            slice 0 j marks @ [marks ! i] @ slice j i marks @ slice (i + 1) len marks
         else if j > i then
            slice 0 i marks @ slice (i + 1) j marks @ [marks ! i] @ slice j len marks
         else marks)"
      have "len \<le> length marks'"
        using True "1.prems" by (auto simp: marks'_def slice_def min_def)
      then have "len \<le> length (reorderFrom (Suc i) len active marks')"
        using "1.IH"(2) [OF _ refl _ Some] True by (simp add: marks'_def)
      then show ?thesis
        using True Some by (simp add: reorderFrom.simps [of i len active marks] marks'_def Let_def)
    qed
  qed
qed


lemma scanActive_Some:
  "scanActive m active j = Some i \<Longrightarrow>
   j \<le> i \<and> i - j < length active \<and> active ! (i - j) = m
   \<and> (\<forall>k \<le> i - j. markdownMixable (active ! k))"
proof (induction active arbitrary: j)
  case Nil
  then show ?case by simp
next
  case (Cons other rest)
  show ?case
  proof (cases "m = other")
    case True
    with Cons.prems show ?thesis by (auto split: if_splits)
  next
    case False
    with Cons.prems have mo: "markdownMixable other" and r: "scanActive m rest (Suc j) = Some i"
      by (auto split: if_splits)
    from Cons.IH [OF r] have ih: "Suc j \<le> i" "i - Suc j < length rest" "rest ! (i - Suc j) = m"
      "\<forall>k \<le> i - Suc j. markdownMixable (rest ! k)" by auto
    have e: "i - j = Suc (i - Suc j)" using ih(1) by simp
    show ?thesis using ih mo unfolding e
      by (auto simp: nth_Cons split: nat.splits)
  qed
qed

lemma mixable_cases: "markdownMixable m \<Longrightarrow> m = EmMark \<or> m = StrongMark"
  by (cases m) auto

lemma distinct_mixable_length:
  assumes "distinct xs" and "\<forall>x \<in> set xs. markdownMixable x"
  shows "length xs \<le> 2"
proof -
  have "set xs \<subseteq> {EmMark, StrongMark}" using assms(2) mixable_cases by auto
  then have "card (set xs) \<le> card {EmMark, StrongMark}"
    by (intro card_mono) auto
  then show ?thesis using distinct_card [OF assms(1)] by simp
qed

lemma scanActive_le1:
  assumes "distinct active" and "scanActive m active 0 = Some i"
  shows "i \<le> 1"
proof -
  from scanActive_Some [OF assms(2)]
  have l: "i < length active" and mx: "\<forall>k \<le> i. markdownMixable (active ! k)" by auto
  have d: "distinct (take (Suc i) active)" using assms(1) by simp
  have "\<forall>x \<in> set (take (Suc i) active). markdownMixable x"
    using mx l by (auto simp: in_set_conv_nth)
  from distinct_mixable_length [OF d this] l show ?thesis by simp
qed

lemma reorder_stop:
  "(i < len \<Longrightarrow> \<not> markdownMixable (marks ! i)) \<Longrightarrow> reorderFrom i len active marks = marks"
  by (auto simp add: reorderFrom.simps [of i len active marks] Let_def)

lemma reorder_one:
  assumes "marks = x # R" and "markdownMixable x" and "\<forall>m \<in> set R. \<not> markdownMixable m"
    and "1 \<le> len" and "len \<le> length marks"
    and "\<And>j. scanActive x active 0 = Some j \<Longrightarrow> j \<le> 1"
  shows "reorderFrom 0 len active marks ! 0 = x"
proof -
  obtain l1 where len: "len = Suc l1" using assms(4) by (cases len) auto
  have lR: "l1 \<le> length R" using assms(1,5) len by simp
  have r0: "0 < l1 \<Longrightarrow> \<not> markdownMixable (R ! 0)"
    using assms(3) lR by (cases R) auto
  have stop1: "reorderFrom (Suc 0) (Suc l1) active (x # R) = x # R"
    by (rule reorder_stop) (use r0 in simp)
  have stop2: "reorderFrom (Suc 0) (Suc l1) active (x # take l1 R) = x # take l1 R"
    by (rule reorder_stop) (use r0 in simp)
  consider "scanActive x active 0 = None" | "scanActive x active 0 = Some 0"
    | "scanActive x active 0 = Some (Suc 0)"
    using assms(6) by (cases "scanActive x active 0") (auto simp: le_Suc_eq)
  then show ?thesis
  proof cases
    case 1
    then show ?thesis
      using assms(2) by (simp add: reorderFrom.simps [of 0] assms(1) len stop1)
  next
    case 2
    then show ?thesis
      using assms(2) by (simp add: reorderFrom.simps [of 0] assms(1) len stop1)
  next
    case 3
    then show ?thesis
      using assms(2) by (simp add: reorderFrom.simps [of 0] assms(1) len slice_def stop2)
  qed
qed

lemma reorder_two:
  assumes "marks = p # q # R" and "markdownMixable p" and "markdownMixable q"
    and "\<forall>m \<in> set R. \<not> markdownMixable m"
    and "2 \<le> len" and "len \<le> length marks"
    and "\<And>j. scanActive p active 0 = Some j \<Longrightarrow> j \<le> 1"
    and "\<And>j. scanActive q active 0 = Some j \<Longrightarrow> j \<le> 1"
  shows "take 2 (reorderFrom 0 len active marks) =
           (if scanActive q active 0 = Some 0 then [q, p] else [p, q])"
proof -
  obtain l2 where len: "len = Suc (Suc l2)"
    using assms(5) by (cases len) (auto simp: numeral_2_eq_2 Suc_le_eq gr0_conv_Suc)
  have lR: "l2 \<le> length R" using assms(1,6) len by simp
  have r0: "0 < l2 \<Longrightarrow> \<not> markdownMixable (R ! 0)"
    using assms(4) lR by (cases R) auto
  have stop: "reorderFrom (Suc (Suc 0)) (Suc (Suc l2)) active (a # b # R) = a # b # R"
    "reorderFrom (Suc (Suc 0)) (Suc (Suc l2)) active (a # b # take l2 R) = a # b # take l2 R"
    "reorderFrom (Suc (Suc 0)) (Suc (Suc l2)) active (a # b # take l2 (take l2 R)) = a # b # take l2 (take l2 R)"
    for a b
    by (rule reorder_stop, use r0 in simp)+
  consider "scanActive p active 0 = None" | "scanActive p active 0 = Some 0"
    | "scanActive p active 0 = Some (Suc 0)"
    using assms(7) by (cases "scanActive p active 0") (auto simp: le_Suc_eq)
  then have step0: "reorderFrom 0 len active marks = reorderFrom (Suc 0) len active marks
      \<or> reorderFrom 0 len active marks = reorderFrom (Suc 0) len active (p # q # take l2 R)"
  proof cases
    case 1
    then show ?thesis using assms(2) by (simp add: reorderFrom.simps [of 0] assms(1) len)
  next
    case 2
    then show ?thesis using assms(2) by (simp add: reorderFrom.simps [of 0] assms(1) len)
  next
    case 3
    then show ?thesis using assms(2) by (simp add: reorderFrom.simps [of 0] assms(1) len slice_def)
  qed
  consider "scanActive q active 0 = None" | "scanActive q active 0 = Some 0"
    | "scanActive q active 0 = Some (Suc 0)"
    using assms(8) by (cases "scanActive q active 0") (auto simp: le_Suc_eq)
  then have step1: "take 2 (reorderFrom (Suc 0) len active (p # q # R')) =
           (if scanActive q active 0 = Some 0 then [q, p] else [p, q])"
    if "R' = R \<or> R' = take l2 R" for R'
  proof cases
    case 1
    then show ?thesis using assms(3) that
      by (auto simp add: reorderFrom.simps [of "Suc 0"] len stop)
  next
    case 2
    then show ?thesis using assms(3) that
      by (auto simp add: reorderFrom.simps [of "Suc 0"] len slice_def stop)
  next
    case 3
    then show ?thesis using assms(3) that
      by (auto simp add: reorderFrom.simps [of "Suc 0"] len stop)
  qed
  show ?thesis using step0 step1 [of R] step1 [of "take l2 R"] by (auto simp: assms(1))
qed

lemma keepFrom_prefix:
  assumes "\<forall>i < n. marks ! i = active ! i" and "n \<le> min (length active) len" and "j \<le> n"
  shows "n \<le> keepFrom j len active marks"
  using assms(3)
proof (induction "n - j" arbitrary: j)
  case 0
  then have "j = n" by simp
  show ?case
    unfolding \<open>j = n\<close>
    by (induction n len active marks rule: keepFrom.induct)
       (metis keepFrom.simps Suc_leD order_refl)
next
  case (Suc d)
  then have jn: "j < n" by simp
  then have "j < min (length active) len" "marks ! j = active ! j"
    using assms(1,2) by auto
  then have "keepFrom j len active marks = keepFrom (Suc j) len active marks"
    by (simp add: keepFrom.simps [of j])
  moreover have "n \<le> keepFrom (Suc j) len active marks"
    using Suc.hyps(1) [of "Suc j"] Suc.hyps(2) jn by simp
  ultimately show ?case by simp
qed

lemma openOps_no_close: "CloseMark m \<notin> set (snd (openOps len marks active))"
proof (induction len marks active rule: openOps.induct)
  case (1 len marks active)
  show ?case
  proof (cases "length active < len")
    case True
    then show ?thesis
      using "1.IH" [OF True refl]
      by (simp add: openOps.simps [of len marks active] Let_def case_prod_beta)
  next
    case False
    then show ?thesis by (simp add: openOps.simps [of len marks active])
  qed
qed

lemma openOps_prefix: "take (length active) (fst (openOps len marks active)) = active"
proof (induction len marks active rule: openOps.induct)
  case (1 len marks active)
  show ?case
  proof (cases "length active < len")
    case True
    have "take (Suc (length active)) (fst (openOps len marks (active @ [marks ! length active])))
            = active @ [marks ! length active]"
      using "1.IH" [OF True refl] by simp
    then have "take (length active) (take (Suc (length active))
                 (fst (openOps len marks (active @ [marks ! length active])))) = active"
      by simp
    then show ?thesis
      using True by (simp add: openOps.simps [of len marks active] Let_def case_prod_beta min_def)
  next
    case False
    then show ?thesis by (simp add: openOps.simps [of len marks active])
  qed
qed

lemma distinct_nth_notin_drop:
  assumes "distinct xs" and "i < n" and "i < length xs"
  shows "xs ! i \<notin> set (drop n xs)"
proof -
  have "distinct (take n xs @ drop n xs)" using assms(1) by simp
  then have "set (take n xs) \<inter> set (drop n xs) = {}" by (simp only: distinct_append)
  moreover have "xs ! i \<in> set (take n xs)"
    using assms(2,3) by (metis in_set_conv_nth length_take min_less_iff_conj nth_take)
  ultimately show ?thesis by auto
qed

lemma mixable_prefix_reordered:
  assumes da: "distinct active" and dm: "distinct marks" and mf: "mixableFirst marks"
    and k: "k < length active"
    and a: "\<forall>i \<le> k. markdownMixable (active ! i) \<and> active ! i \<in> set marks"
  shows "Suc k \<le> lenOf marks \<and>
         (\<forall>i \<le> k. reorderFrom 0 (lenOf marks) active marks ! i = active ! i)"
proof -
  define M where "M = takeWhile markdownMixable marks"
  define R where "R = dropWhile markdownMixable marks"
  define len where "len = lenOf marks"
  have mr: "marks = M @ R" by (simp add: M_def R_def)
  have Mm: "\<forall>m \<in> set M. markdownMixable m"
    unfolding M_def by (auto dest: set_takeWhileD)
  have "filter markdownMixable marks = M" using mf by (simp add: mixableFirst_def M_def)
  then have "filter markdownMixable M @ filter markdownMixable R = M"
    unfolding mr by simp
  moreover have "filter markdownMixable M = M" using Mm by (simp add: filter_id_conv)
  ultimately have "filter markdownMixable R = []" by simp
  then have Rn: "\<forall>m \<in> set R. \<not> markdownMixable m" by (simp add: filter_empty_conv)
  have dM: "distinct M" using dm mr by simp
  have lM: "length M \<le> 2" using distinct_mixable_length [OF dM Mm] .
  have inM: "active ! i \<in> set M" if "i \<le> k" for i
    using a that Rn mr by auto
  have lenM: "length M \<le> len"
  proof (cases "codeOf marks")
    case None
    then show ?thesis by (simp add: len_def lenOf_def mr)
  next
    case (Some c)
    then have ne: "marks \<noteq> []" and ic: "isCode (last marks)"
      by (auto simp: codeOf_def split: if_splits)
    have "R \<noteq> []"
    proof
      assume "R = []"
      then have "last marks \<in> set M" using ne mr by (metis append_Nil2 last_in_set)
      then have "markdownMixable (last marks)" using Mm by blast
      with ic show False by (cases "last marks") auto
    qed
    then have "length M < length marks" using mr by (cases R) auto
    then show ?thesis by (simp add: len_def lenOf_def Some)
  qed
  have lenL: "len \<le> length marks" by (simp add: len_def lenOf_def)
  have sb: "\<And>m j. scanActive m active 0 = Some j \<Longrightarrow> j \<le> 1"
    using scanActive_le1 [OF da] by blast
  have dk: "distinct (take (Suc k) active)" using da by simp
  have mk: "\<forall>x \<in> set (take (Suc k) active). markdownMixable x"
    using a k by (auto simp: in_set_conv_nth)
  have k1: "k \<le> 1" using distinct_mixable_length [OF dk mk] k by simp
  obtain x0 ra where act: "active = x0 # ra" using k by (cases active) auto
  have x0: "markdownMixable x0" "x0 \<in> set M" using a inM [of 0] act by auto
  have s0: "scanActive x0 active 0 = Some 0" using x0(1) act by simp
  have not0: "scanActive m active 0 \<noteq> Some 0" if "m \<noteq> x0" for m
    using scanActive_Some [of m active 0 0] that act by auto
  consider p where "M = [p]" | p q where "M = [p, q]"
    using lM x0(2) by (cases M rule: list.exhaust; cases "tl M") (auto simp: Suc_le_eq)
  then show ?thesis
  proof cases
    case 1
    then have p: "p = x0" using x0(2) by simp
    have k0: "k = 0"
    proof (rule ccontr)
      assume "k \<noteq> 0"
      then have "k = 1" using k1 by simp
      then have "active ! 1 \<in> set M" using inM [of 1] by simp
      then have "active ! 1 = active ! 0" using 1 p act by simp
      moreover have "(active ! 1 = active ! 0) = ((1::nat) = 0)"
        using da k \<open>k = 1\<close> by (intro nth_eq_iff_index_eq) auto
      ultimately show False by simp
    qed
    have "reorderFrom 0 len active marks ! 0 = x0"
      using reorder_one [of marks x0 R len active] mr 1 p x0(1) Rn lenM lenL sb by simp
    then show ?thesis using k0 act lenM 1 by (simp add: len_def)
  next
    case 2
    then have pq: "p \<noteq> q" "markdownMixable p" "markdownMixable q"
      using dM Mm by auto
    have t: "take 2 (reorderFrom 0 len active marks) =
           (if scanActive q active 0 = Some 0 then [q, p] else [p, q])"
      using reorder_two [of marks p q R len active] mr 2 pq Rn lenM lenL sb by simp
    have n0: "reorderFrom 0 len active marks ! 0 = take 2 (reorderFrom 0 len active marks) ! 0"
      and n1: "reorderFrom 0 len active marks ! 1 = take 2 (reorderFrom 0 len active marks) ! 1"
      by simp_all
    have r0: "reorderFrom 0 len active marks ! 0 = x0"
      and r1: "reorderFrom 0 len active marks ! 1 = (if x0 = p then q else p)"
      using x0(2) 2 pq(1) s0 not0 [of q] unfolding n0 n1 t by auto
    have "reorderFrom 0 len active marks ! 1 = active ! 1" if "k = 1"
    proof -
      have i: "active ! 1 \<in> set M" using inM [of 1] that by simp
      have "active ! 1 \<noteq> x0" using da k that act by (auto simp: nth_eq_iff_index_eq)
      then show ?thesis using i 2 x0(2) r1 by auto
    qed
    then have "\<forall>i \<le> k. reorderFrom 0 len active marks ! i = active ! i"
      using r0 act k1 by (auto simp: le_Suc_eq)
    then show ?thesis using k1 lenM 2 by (simp add: len_def)
  qed
qed

text \<open>
  Claim C8, as the code has it. Let the active marks be distinct and the marks of the
  next node be distinct with the mixable ones first, as in a sorted mark set. If the
  marks at the positions up to \<open>k\<close> of the active stack are all mixable and all among
  the marks of the next node, then the reordering pass puts them at the same positions
  of the node's mark list: the common prefix is longer than \<open>k\<close>, none of these marks is
  closed, and they stay where they are on the stack. So a mixable mark that is still
  active and present on the next node is kept open whenever all marks below it on the
  stack are mixable and present on the next node as well.
\<close>

theorem mixable_prefix_kept:
  assumes "distinct active" and "distinct marks" and "mixableFirst marks"
    and "k < length active"
    and "\<forall>i \<le> k. markdownMixable (active ! i) \<and> active ! i \<in> set marks"
  shows "k < keepFrom 0 (lenOf marks) active (reorderFrom 0 (lenOf marks) active marks)
         \<and> (\<forall>i \<le> k. CloseMark (active ! i) \<notin> set (snd (progressOps marks active)))
         \<and> take (Suc k) (fst (progressOps marks active)) = take (Suc k) active"
proof -
  define len where "len = lenOf marks"
  define marks1 where "marks1 = reorderFrom 0 len active marks"
  define keep where "keep = keepFrom 0 len active marks1"
  have r: "Suc k \<le> len" "\<forall>i \<le> k. marks1 ! i = active ! i"
    using mixable_prefix_reordered [OF assms] by (simp_all add: len_def marks1_def)
  have kp: "Suc k \<le> keep"
    unfolding keep_def
    by (rule keepFrom_prefix) (use r assms(4) in \<open>auto simp: less_Suc_eq_le\<close>)
  have po: "progressOps marks active =
      (fst (openOps len marks1 (take keep active)),
       map CloseMark (rev (drop keep active)) @ snd (openOps len marks1 (take keep active)))"
    by (simp add: progressOps_def Let_def closeOps_eq case_prod_beta
        flip: len_def marks1_def keep_def)
  have 1: "k < keep" using kp by simp
  have 2: "CloseMark (active ! i) \<notin> set (snd (progressOps marks active))" if "i \<le> k" for i
  proof -
    have "active ! i \<notin> set (drop keep active)"
      by (rule distinct_nth_notin_drop) (use assms(1,4) kp that in auto)
    then show ?thesis by (auto simp: po openOps_no_close)
  qed
  have "take (length (take keep active)) (fst (openOps len marks1 (take keep active))) = take keep active"
    by (rule openOps_prefix)
  then have "take (Suc k) (take (length (take keep active)) (fst (openOps len marks1 (take keep active))))
               = take (Suc k) (take keep active)" by simp
  moreover have "min (Suc k) (length (take keep active)) = Suc k" "min (Suc k) keep = Suc k"
    using kp assms(4) by simp_all
  ultimately have "take (Suc k) (fst (openOps len marks1 (take keep active))) = take (Suc k) active"
    by (simp only: take_take)
  then have 3: "take (Suc k) (fst (progressOps marks active)) = take (Suc k) active"
    by (simp add: po)
  show ?thesis using 1 2 3 by (simp add: keep_def marks1_def len_def)
qed


theorem mixable_prefix_kept_witness:
  "distinct [StrongMark, EmMark] \<and> distinct [EmMark, StrongMark, LinkMark ''u'' None]
   \<and> mixableFirst [EmMark, StrongMark, LinkMark ''u'' None]
   \<and> (1::nat) < length [StrongMark, EmMark]
   \<and> markdownMixable ([StrongMark, EmMark] ! 0)
   \<and> [StrongMark, EmMark] ! 0 \<in> set [EmMark, StrongMark, LinkMark ''u'' None]
   \<and> markdownMixable ([StrongMark, EmMark] ! 1)
   \<and> [StrongMark, EmMark] ! 1 \<in> set [EmMark, StrongMark, LinkMark ''u'' None]
   \<and> 1 < keepFrom 0 (lenOf [EmMark, StrongMark, LinkMark ''u'' None]) [StrongMark, EmMark]
           (reorderFrom 0 (lenOf [EmMark, StrongMark, LinkMark ''u'' None]) [StrongMark, EmMark]
              [EmMark, StrongMark, LinkMark ''u'' None])
   \<and> CloseMark StrongMark \<notin> set (snd (progressOps [EmMark, StrongMark, LinkMark ''u'' None] [StrongMark, EmMark]))
   \<and> CloseMark EmMark \<notin> set (snd (progressOps [EmMark, StrongMark, LinkMark ''u'' None] [StrongMark, EmMark]))
   \<and> take 2 (fst (progressOps [EmMark, StrongMark, LinkMark ''u'' None] [StrongMark, EmMark]))
       = [StrongMark, EmMark]"
proof -
  have d1: "distinct [StrongMark, EmMark]" and d2: "distinct [EmMark, StrongMark, LinkMark ''u'' None]"
    by simp_all
  have mf: "mixableFirst [EmMark, StrongMark, LinkMark ''u'' None]"
    by (simp add: mixableFirst_def)
  have k: "(1::nat) < length [StrongMark, EmMark]" by simp
  have a: "\<forall>i \<le> 1. markdownMixable ([StrongMark, EmMark] ! i)
          \<and> [StrongMark, EmMark] ! i \<in> set [EmMark, StrongMark, LinkMark ''u'' None]"
    by (auto simp: le_Suc_eq)
  note r = mixable_prefix_kept [OF d1 d2 mf k a]
  have r1: "1 < keepFrom 0 (lenOf [EmMark, StrongMark, LinkMark ''u'' None]) [StrongMark, EmMark]
           (reorderFrom 0 (lenOf [EmMark, StrongMark, LinkMark ''u'' None]) [StrongMark, EmMark]
              [EmMark, StrongMark, LinkMark ''u'' None])"
    using r by (rule conjunct1)
  have r2: "\<forall>i \<le> 1. CloseMark ([StrongMark, EmMark] ! i)
              \<notin> set (snd (progressOps [EmMark, StrongMark, LinkMark ''u'' None] [StrongMark, EmMark]))"
    using r by (rule conjunct2 [THEN conjunct1])
  have r3: "take (Suc 1) (fst (progressOps [EmMark, StrongMark, LinkMark ''u'' None] [StrongMark, EmMark]))
       = take (Suc 1) [StrongMark, EmMark]"
    using r by (rule conjunct2 [THEN conjunct2])
  have r20: "CloseMark StrongMark \<notin> set (snd (progressOps [EmMark, StrongMark, LinkMark ''u'' None] [StrongMark, EmMark]))"
    using r2 [rule_format, of 0] by simp
  have r21: "CloseMark EmMark \<notin> set (snd (progressOps [EmMark, StrongMark, LinkMark ''u'' None] [StrongMark, EmMark]))"
    using r2 [rule_format, of 1] by simp
  have r3': "take 2 (fst (progressOps [EmMark, StrongMark, LinkMark ''u'' None] [StrongMark, EmMark]))
       = [StrongMark, EmMark]"
    using r3 by (simp add: numeral_2_eq_2)
  have a0: "markdownMixable ([StrongMark, EmMark] ! 0)"
    "[StrongMark, EmMark] ! 0 \<in> set [EmMark, StrongMark, LinkMark ''u'' None]"
    "markdownMixable ([StrongMark, EmMark] ! 1)"
    "[StrongMark, EmMark] ! 1 \<in> set [EmMark, StrongMark, LinkMark ''u'' None]"
    by simp_all
  show ?thesis
    using d1 d2 mf k a0 r1 r20 r21 r3' by (intro conjI)
qed

text \<open>
  The claim as stated has no still-active mixable mark closed and reopened. With
  emphasis and strong open in this order, a next node that is only strong has the
  emphasis mark, which is below strong on the stack, closed; strong is closed before it
  and opened again after it: the text \<open>a\<close> with both marks followed by the text \<open>b\<close> with
  the strong mark serializes to \<open>***a*****b**\<close>.
\<close>

theorem mixable_reopened_counterexample:
  "markdownMixable StrongMark \<and> StrongMark \<in> set [EmMark, StrongMark] \<and> StrongMark \<in> set [StrongMark]
   \<and> progressOps [StrongMark] [EmMark, StrongMark]
       = ([StrongMark], [CloseMark StrongMark, CloseMark EmMark, OpenMark StrongMark])
   \<and> toMarkdown [Paragraph [Text ''a'' [EmMark, StrongMark], Text ''b'' [StrongMark]]] \<lparr>hardBreak = None\<rparr>
       = ''***a*****b**''"
  by code_simp

end
